theory Spec2Isabelle
  imports Main "HOL-Library.Word" "HOL-Library.Sublist"
begin

section \<open>Shared vocabulary of the commands\<close>

text \<open>
  The commands \<^verbatim>\<open>dag put\<close> (core/commands/dag/dag.go) and \<^verbatim>\<open>urlstore add\<close>
  (core/commands/urlstore.go) run against collaborators that are not part of the command
  sources: the node environment, the parser, the batch, the pinner, the HTTP client and
  the layout builders. Each collaborator call that can fail is a field of the record
  \<open>env\<close>, so that every error return of the commands is a branch of the model. What the
  commands do to the shared state is recorded in the record \<open>world\<close>, together with the
  sequence of collaborator calls (\<open>trace\<close>).
\<close>

type_synonym cid = string
  \<comment> \<open>a \<^verbatim>\<open>cid.Cid\<close>, represented by its string form (\<^verbatim>\<open>c.String()\<close>)\<close>

type_synonym bytes = "8 word list"

type_synonym input_file = bytes
  \<comment> \<open>a \<^verbatim>\<open>files.File\<close> handed to the parser: its content\<close>

datatype node = Node (Cid: cid) (RawData: bytes)
  \<comment> \<open>an \<^verbatim>\<open>ipld.Node\<close>; the commands only call \<^verbatim>\<open>Cid()\<close> on it\<close>

datatype pin_mode = Recursive | Direct | Indirect

datatype error =
    Errorf string
  | ErrUrlstoreNotEnabled
  | ErrInvalidMultihash
  | External string
  \<comment> \<open>\<open>Errorf\<close>: an error made by \<^verbatim>\<open>fmt.Errorf\<close>, with its message; \<open>External\<close>: an error
      value returned by a collaborator and passed on unchanged\<close>

datatype event =
    EvNextFile
  | EvParseInputs input_file
  | EvBatchAdd cid
  | EvSend cid
  | EvCommit
  | EvPinLock
  | EvPinWithMode cid pin_mode
  | EvFlush
  | EvUnlock
  | EvHttpGet string
  | EvLayout bool
  | EvEmitOnce

record world =
  outChan :: "cid list"
  received :: nat
  closed :: bool
  staged :: "node list"
  blocks :: "node list"
  pinset :: "cid \<rightharpoonup> pin_mode"
  flushed :: "cid \<rightharpoonup> pin_mode"
  pinlock :: bool
  trace :: "event list"

record response =
  StatusCode :: int
  ContentLength :: "64 word"
  Body :: bytes

record env =
  GetNode :: "error option"
  Names :: "string \<rightharpoonup> 64 word"
  ParseInputs :: "string \<Rightarrow> string \<Rightarrow> input_file \<Rightarrow> 64 word \<Rightarrow> error + node list"
  BatchAddErr :: "node \<Rightarrow> error option"
  CommitErr :: "error option"
  FlushErr :: "error option"
  EmitErr :: "error option"
  IsURL :: "string \<Rightarrow> bool"
  RepoConfig :: "error + bool"
  NewRequest :: "string \<Rightarrow> error option"
  HttpDo :: "string \<Rightarrow> error + response"
  balanced_Layout :: "string \<Rightarrow> bytes \<Rightarrow> error + node"
  trickle_Layout :: "string \<Rightarrow> bytes \<Rightarrow> error + node"
  intSize :: nat

definition log :: "event \<Rightarrow> world \<Rightarrow> world" where
  "log e w = w\<lparr>trace := trace w @ [e]\<rparr>"

subsection \<open>Decimal rendering in error messages\<close>

definition digit :: "nat \<Rightarrow> char" where
  "digit d = char_of (48 + d)"

function show_nat :: "nat \<Rightarrow> string" where
  "show_nat n = (if n < 10 then [digit n] else show_nat (n div 10) @ [digit (n mod 10)])"
  by pat_completeness auto
termination
  by (relation "measure id") auto

declare show_nat.simps [simp del]

definition show_int :: "int \<Rightarrow> string" where
  \<comment> \<open>the verb \<^verbatim>\<open>%d\<close> of \<^verbatim>\<open>fmt\<close>\<close>
  "show_int i = (if i < 0 then CHR ''-'' # show_nat (nat (- i)) else show_nat (nat i))"

subsection \<open>Pin manager and pin lock\<close>

text \<open>
  Modelled from the spec: the pin package and the blockstore's pin lock are not among the
  sources. The pin manager's state is a mapping from CID to mode; \<open>PinWithMode\<close> marks a
  CID with a mode without walking its descendants; \<open>Flush\<close> makes the in-memory set
  durable; \<open>PinLock\<close> acquires the process-wide lock and \<open>Unlock\<close> on the returned guard
  releases it.
\<close>

definition PinLock :: "world \<Rightarrow> world" where
  "PinLock w = log EvPinLock (w\<lparr>pinlock := True\<rparr>)"

definition Unlock :: "world \<Rightarrow> world" where
  "Unlock w = log EvUnlock (w\<lparr>pinlock := False\<rparr>)"

definition PinWithMode :: "cid \<Rightarrow> pin_mode \<Rightarrow> world \<Rightarrow> world" where
  "PinWithMode c m w = log (EvPinWithMode c m) (w\<lparr>pinset := (pinset w)(c \<mapsto> m)\<rparr>)"

definition Flush :: "error option \<Rightarrow> world \<Rightarrow> error option \<times> world" where
  "Flush fe w =
     (case fe of
        Some err \<Rightarrow> (Some err, log EvFlush w)
      | None \<Rightarrow> (None, log EvFlush (w\<lparr>flushed := pinset w\<rparr>)))"

subsection \<open>Batch\<close>

text \<open>
  Modelled from the spec: \<^verbatim>\<open>ipld.Batch\<close> is not among the sources. A new batch has
  nothing staged, \<open>Add\<close> stages a node, \<open>Commit\<close> persists every staged node; either can
  fail with the collaborator's error.
\<close>

definition NewBatch :: "world \<Rightarrow> world" where
  "NewBatch w = w\<lparr>staged := []\<rparr>"

definition Batch_Add :: "(node \<Rightarrow> error option) \<Rightarrow> node \<Rightarrow> world \<Rightarrow> error option \<times> world" where
  "Batch_Add adderr nd w =
     (case adderr nd of
        Some err \<Rightarrow> (Some err, log (EvBatchAdd (Cid nd)) w)
      | None \<Rightarrow> (None, log (EvBatchAdd (Cid nd)) (w\<lparr>staged := staged w @ [nd]\<rparr>)))"

definition Batch_Commit :: "error option \<Rightarrow> world \<Rightarrow> error option \<times> world" where
  "Batch_Commit ce w =
     (case ce of
        Some err \<Rightarrow> (Some err, log EvCommit w)
      | None \<Rightarrow> (None, log EvCommit (w\<lparr>blocks := blocks w @ staged w, staged := []\<rparr>)))"

section \<open>The result queue of dag put\<close>

text \<open>
  \<^verbatim>\<open>outChan := make(chan interface{}, 8)\<close>: \<open>outChan w\<close> is the sequence of all values sent
  so far, \<open>received w\<close> how many of them the consumer (\<^verbatim>\<open>res.Emit\<close>) has taken, so the
  buffer holds \<open>length (outChan w) - received w\<close> values.

  The producer's
  \<^verbatim>\<open>select { case outChan <- v: ... case <-req.Context.Done(): return nil }\<close>
  waits until one of its two cases can proceed and picks among the ready ones. What the
  rest of the process does meanwhile is the \<open>sel_env\<close> of that \<^verbatim>\<open>select\<close>: how many
  further values the consumer has taken when the producer arrives (\<open>taken\<close>), whether the
  context is cancelled by then (\<open>cancelled\<close>), which case Go's random choice picks when
  both are ready (\<open>coin\<close>, \<open>True\<close> for the send), and, when neither is ready and the producer
  waits, what happens first (\<open>wake\<close>): the consumer takes a value, the context is
  cancelled, or nothing ever happens.
\<close>

datatype wake = Received | Cancelled | Never

record sel_env =
  taken :: nat
  cancelled :: bool
  coin :: bool
  wake :: wake

datatype sel_result = Sent | Done | Blocked

definition chanCap :: nat where
  "chanCap = 8"

definition buffered :: "world \<Rightarrow> nat" where
  "buffered w = length (outChan w) - received w"

definition consume :: "nat \<Rightarrow> world \<Rightarrow> world" where
  "consume k w = w\<lparr>received := min (length (outChan w)) (received w + k)\<rparr>"

definition send :: "cid \<Rightarrow> world \<Rightarrow> world" where
  "send c w = log (EvSend c) (w\<lparr>outChan := outChan w @ [c]\<rparr>)"

definition select_send :: "sel_env \<Rightarrow> cid \<Rightarrow> world \<Rightarrow> sel_result \<times> world" where
  "select_send se c w =
     (let w1 = consume (taken se) w in
      if buffered w1 < chanCap \<and> cancelled se then
        (if coin se then (Sent, send c w1) else (Done, w1))
      else if buffered w1 < chanCap then (Sent, send c w1)
      else if cancelled se then (Done, w1)
      else (case wake se of
              Received \<Rightarrow> (Sent, send c (consume 1 w1))
            | Cancelled \<Rightarrow> (Done, w1)
            | Never \<Rightarrow> (Blocked, w1)))"

section \<open>dag put\<close>

record request =
  input_enc :: string
  format :: string
  hash :: string
  pin :: bool

type_synonym files = "((error + input_file) \<times> sel_env) list"
  \<comment> \<open>the results of the successive \<^verbatim>\<open>f.NextFile()\<close> calls before \<^verbatim>\<open>io.EOF\<close>, each with
      the environment of the \<^verbatim>\<open>select\<close> of its loop iteration\<close>

datatype result = Nil | Err error | Hangs
  \<comment> \<open>what a call returns: \<^verbatim>\<open>nil\<close>, an error, or it never returns\<close>

datatype loop_exit = Break | Return result

text \<open>\<^verbatim>\<open>cids.Add(cid)\<close> on a \<^verbatim>\<open>cid.Set\<close>: the members, without duplicates.\<close>

definition Set_Add :: "cid \<Rightarrow> cid list \<Rightarrow> cid list" where
  "Set_Add c cs = (if c \<in> set cs then cs else cs @ [c])"

text \<open>\<^verbatim>\<open>for _, nd := range nds { err := b.Add(nd); if err != nil { return err } }\<close>\<close>

fun addNodes :: "(node \<Rightarrow> error option) \<Rightarrow> node list \<Rightarrow> world \<Rightarrow> error option \<times> world" where
  "addNodes adderr [] w = (None, w)"
| "addNodes adderr (nd # nds) w =
     (case Batch_Add adderr nd w of
        (Some err, w') \<Rightarrow> (Some err, w')
      | (None, w') \<Rightarrow> addNodes adderr nds w')"

text \<open>The \<^verbatim>\<open>for\<close> loop of \<^verbatim>\<open>addAllAndPin\<close> (dag.go, lines 96 to 128).\<close>

fun addAll :: "env \<Rightarrow> request \<Rightarrow> 64 word \<Rightarrow> files \<Rightarrow> cid list \<Rightarrow> world
    \<Rightarrow> loop_exit \<times> cid list \<times> world" where
  "addAll E rq mhType [] cids w = (Break, cids, log EvNextFile w)"
| "addAll E rq mhType ((nf, se) # f) cids w =
     (case nf of
        Inl err \<Rightarrow> (Return (Err err), cids, log EvNextFile w)
      | Inr fl \<Rightarrow>
          (let w1 = log (EvParseInputs fl) (log EvNextFile w) in
           case ParseInputs E (input_enc rq) (format rq) fl mhType of
             Inl err \<Rightarrow> (Return (Err err), cids, w1)
           | Inr nds \<Rightarrow>
               if length nds = 0 then (Return (Err (Errorf ''no node returned from ParseInputs'')), cids, w1)
               else
                 (case addNodes (BatchAddErr E) nds w1 of
                    (Some err, w2) \<Rightarrow> (Return (Err err), cids, w2)
                  | (None, w2) \<Rightarrow>
                      (let c = Cid (hd nds); cids' = Set_Add c cids in
                       case select_send se c w2 of
                         (Sent, w3) \<Rightarrow> addAll E rq mhType f cids' w3
                       | (Done, w3) \<Rightarrow> (Return Nil, cids', w3)
                       | (Blocked, w3) \<Rightarrow> (Return Hangs, cids', w3)))))"

text \<open>
  \<^verbatim>\<open>cids.ForEach(func(c cid.Cid) error { nd.Pinning.PinWithMode(c, pin.Recursive); ... })\<close>.
  Go leaves the order of the iteration open; the model takes the order of insertion.
\<close>

definition pinAll :: "cid list \<Rightarrow> world \<Rightarrow> world" where
  "pinAll cids w = foldl (\<lambda>w c. PinWithMode c Recursive w) w cids"

text \<open>
  The part of \<^verbatim>\<open>addAllAndPin\<close> after the loop (dag.go, lines 130 to 148).
  \<^verbatim>\<open>defer nd.Blockstore.PinLock().Unlock()\<close> takes the lock where the \<^verbatim>\<open>defer\<close> statement
  stands and releases it when the function returns.
\<close>

definition commitAndPin :: "env \<Rightarrow> request \<Rightarrow> cid list \<Rightarrow> world \<Rightarrow> result \<times> world" where
  "commitAndPin E rq cids w =
     (case Batch_Commit (CommitErr E) w of
        (Some err, w2) \<Rightarrow> (Err err, w2)
      | (None, w2) \<Rightarrow>
          if pin rq then
            (let w3 = PinLock w2;
                 w4 = pinAll cids w3
             in case Flush (FlushErr E) w4 of
                  (Some err, w5) \<Rightarrow> (Err err, Unlock w5)
                | (None, w5) \<Rightarrow> (Nil, Unlock w5))
          else (Nil, w2))"

text \<open>
  \<^verbatim>\<open>addAllAndPin\<close> from the head of its loop on, with the loop's variables as arguments:
  the remaining files, the set \<^verbatim>\<open>cids\<close> and the state. \<^verbatim>\<open>addAllAndPin\<close> itself enters
  the loop with an empty set and a new batch.
\<close>

definition addAllFrom :: "env \<Rightarrow> request \<Rightarrow> 64 word \<Rightarrow> files \<Rightarrow> cid list \<Rightarrow> world
    \<Rightarrow> result \<times> world" where
  "addAllFrom E rq mhType f cids w =
     (case addAll E rq mhType f cids w of
        (Return r, cids', w1) \<Rightarrow> (r, w1)
      | (Break, cids', w1) \<Rightarrow> commitAndPin E rq cids' w1)"

definition addAllAndPin :: "env \<Rightarrow> request \<Rightarrow> 64 word \<Rightarrow> files \<Rightarrow> world \<Rightarrow> result \<times> world" where
  "addAllAndPin E rq mhType f w = addAllFrom E rq mhType f [] (NewBatch w)"

text \<open>
  \<^verbatim>\<open>DagPutCmd.Run\<close>. \<open>hashType\<close> is the choice of \<^verbatim>\<open>mhType\<close> (lines 78 to 88): \<^verbatim>\<open>MaxUint64\<close>
  stands for the format's default hash, a name is looked up in \<^verbatim>\<open>mh.Names\<close>. The producer
  goroutine runs \<^verbatim>\<open>addAllAndPin\<close>, closes \<^verbatim>\<open>outChan\<close> and hands its error over; \<^verbatim>\<open>Run\<close>
  returns the error of \<^verbatim>\<open>res.Emit(outChan)\<close> if there is one and the producer's otherwise.
\<close>

definition MaxUint64 :: "64 word" where
  "MaxUint64 = - 1"

definition hashType :: "env \<Rightarrow> request \<Rightarrow> error + 64 word" where
  "hashType E rq =
     (if hash rq \<noteq> '''' then
        (case Names E (hash rq) of
           None \<Rightarrow> Inl (Errorf (hash rq @ '' in not a valid multihash name''))
         | Some mhType \<Rightarrow> Inr mhType)
      else Inr MaxUint64)"

definition makeChan :: "world \<Rightarrow> world" where
  "makeChan w = w\<lparr>outChan := [], received := 0, closed := False\<rparr>"

definition produce :: "env \<Rightarrow> request \<Rightarrow> 64 word \<Rightarrow> files \<Rightarrow> world \<Rightarrow> result \<times> world" where
  "produce E rq mhType f w =
     (case addAllAndPin E rq mhType f (makeChan w) of
        (Hangs, w1) \<Rightarrow>
          (case EmitErr E of Some err \<Rightarrow> (Err err, w1) | None \<Rightarrow> (Hangs, w1))
      | (r, w1) \<Rightarrow>
          (case EmitErr E of
             Some err \<Rightarrow> (Err err, w1\<lparr>closed := True\<rparr>)
           | None \<Rightarrow> (r, w1\<lparr>closed := True\<rparr>)))"

definition DagPut_Run :: "env \<Rightarrow> request \<Rightarrow> files \<Rightarrow> world \<Rightarrow> result \<times> world" where
  "DagPut_Run E rq f w =
     (case GetNode E of
        Some err \<Rightarrow> (Err err, w)
      | None \<Rightarrow>
          (case hashType E rq of
             Inl err \<Rightarrow> (Err err, w)
           | Inr mhType \<Rightarrow> produce E rq mhType f w))"

section \<open>urlstore add\<close>

record url_request =
  url_arg :: string
  trickle_opt :: bool
  pin_opt :: bool

record BlockStat =
  Key :: string
  Size :: int

definition StatusOK :: int where
  "StatusOK = 200"

text \<open>
  \<^verbatim>\<open>int(hres.ContentLength)\<close>: the conversion of an \<^verbatim>\<open>int64\<close> to Go's \<^verbatim>\<open>int\<close>, which has
  \<open>intSize\<close> bits (32 or 64, by platform) and keeps the low bits.
\<close>

definition go_int :: "nat \<Rightarrow> 64 word \<Rightarrow> int" where
  "go_int bits x = signed_take_bit (bits - 1) (sint x)"

text \<open>
  \<^verbatim>\<open>urlAdd.Run\<close>. \<^verbatim>\<open>defer n.Blockstore.PinLock().Unlock()\<close> inside \<^verbatim>\<open>if dopin\<close> takes the
  lock there and releases it when \<^verbatim>\<open>Run\<close> returns (\<open>release\<close>).
\<close>

definition release :: "bool \<Rightarrow> world \<Rightarrow> world" where
  "release dopin w = (if dopin then Unlock w else w)"

definition EmitOnce :: "env \<Rightarrow> BlockStat \<Rightarrow> world \<Rightarrow> (error + BlockStat) \<times> world" where
  "EmitOnce E bs w =
     (case EmitErr E of
        Some err \<Rightarrow> (Inl err, log EvEmitOnce w)
      | None \<Rightarrow> (Inr bs, log EvEmitOnce w))"

definition UrlAdd_Run :: "env \<Rightarrow> url_request \<Rightarrow> world \<Rightarrow> (error + BlockStat) \<times> world" where
  "UrlAdd_Run E rq w =
     (let url = url_arg rq in
      case GetNode E of
        Some err \<Rightarrow> (Inl err, w)
      | None \<Rightarrow>
          if \<not> IsURL E url then (Inl (Errorf (''unsupported url syntax: '' @ url)), w)
          else
            (case RepoConfig E of
               Inl err \<Rightarrow> (Inl err, w)
             | Inr UrlstoreEnabled \<Rightarrow>
                 if \<not> UrlstoreEnabled then (Inl ErrUrlstoreNotEnabled, w)
                 else
                   (let useTrickledag = trickle_opt rq; dopin = pin_opt rq in
                    case NewRequest E url of
                      Some err \<Rightarrow> (Inl err, w)
                    | None \<Rightarrow>
                        (let w1 = log (EvHttpGet url) w in
                         case HttpDo E url of
                           Inl err \<Rightarrow> (Inl err, w1)
                         | Inr hres \<Rightarrow>
                             if StatusCode hres \<noteq> StatusOK then
                               (Inl (Errorf (''expected code 200, got: '' @ show_int (StatusCode hres))), w1)
                             else
                               (let w2 = (if dopin then PinLock w1 else w1);
                                    layout = (if useTrickledag then trickle_Layout E else balanced_Layout E);
                                    w3 = log (EvLayout useTrickledag) w2
                                in case layout url (Body hres) of
                                     Inl err \<Rightarrow> (Inl err, release dopin w3)
                                   | Inr root \<Rightarrow>
                                       (let c = Cid root;
                                            bs = \<lparr>Key = c, Size = go_int (intSize E) (ContentLength hres)\<rparr>
                                        in if dopin then
                                             (case Flush (FlushErr E) (PinWithMode c Recursive w3) of
                                                (Some err, w5) \<Rightarrow> (Inl err, release dopin w5)
                                              | (None, w5) \<Rightarrow>
                                                  (case EmitOnce E bs w5 of
                                                     (r, w6) \<Rightarrow> (r, release dopin w6)))
                                           else
                                             (case EmitOnce E bs w3 of
                                                (r, w6) \<Rightarrow> (r, release dopin w6))))))))"

section \<open>Peer identities\<close>

text \<open>
  The package \<^verbatim>\<open>peer\<close> (peer.go). An \<^verbatim>\<open>ID\<close> is a Go
  string, that is a sequence of bytes. The functions it calls belong to libraries that are
  not among the sources and are parameters of the model (\<open>peer_libs\<close>): \<^verbatim>\<open>b58.Encode\<close> and
  \<^verbatim>\<open>b58.Decode\<close> of the base58 codec and \<^verbatim>\<open>mh.Cast\<close> of go-multihash, which checks that bytes
  are a multihash. \<^verbatim>\<open>mh.FromB58String\<close> is go-multihash's composition of the two: it decodes
  the base58 text, answers \<^verbatim>\<open>ErrInvalidMultihash\<close> if that fails and casts the bytes
  otherwise.
\<close>

type_synonym ID = bytes

record peer_libs =
  b58_Encode :: "bytes \<Rightarrow> string"
  b58_Decode :: "string \<Rightarrow> error + bytes"
  mh_Cast :: "bytes \<Rightarrow> error + bytes"

definition mh_FromB58String :: "peer_libs \<Rightarrow> string \<Rightarrow> error + bytes" where
  "mh_FromB58String L s =
     (case b58_Decode L s of
        Inl err \<Rightarrow> Inl ErrInvalidMultihash
      | Inr b \<Rightarrow> mh_Cast L b)"

text \<open>
  \<^verbatim>\<open>IDFromBytes\<close>: \<^verbatim>\<open>if _, err := mh.Cast(b); err != nil { return ID(""), err }; return ID(b), nil\<close>.
  It is the package's test that bytes are a valid multihash.
\<close>

definition IDFromBytes :: "peer_libs \<Rightarrow> bytes \<Rightarrow> ID \<times> error option" where
  "IDFromBytes L b =
     (case mh_Cast L b of
        Inl err \<Rightarrow> ([], Some err)
      | Inr m \<Rightarrow> (b, None))"

text \<open>\<^verbatim>\<open>IDB58Decode\<close>: \<^verbatim>\<open>m, err := mh.FromB58String(s); if err != nil { return "", err }; return ID(m), err\<close>.\<close>

definition IDB58Decode :: "peer_libs \<Rightarrow> string \<Rightarrow> ID \<times> error option" where
  "IDB58Decode L s =
     (case mh_FromB58String L s of
        Inl err \<Rightarrow> ([], Some err)
      | Inr m \<Rightarrow> (m, None))"

text \<open>\<^verbatim>\<open>IDB58Encode\<close>: \<^verbatim>\<open>return b58.Encode([]byte(id))\<close>.\<close>

definition IDB58Encode :: "peer_libs \<Rightarrow> ID \<Rightarrow> string" where
  "IDB58Encode L pid = b58_Encode L pid"

section \<open>Observations on runs\<close>

text \<open>
  The properties below speak about what a run adds to the trace: \<open>new_events w w'\<close> are the
  collaborator calls made between the states \<open>w\<close> and \<open>w'\<close>.
\<close>

definition new_events :: "world \<Rightarrow> world \<Rightarrow> event list" where
  "new_events w w' = drop (length (trace w)) (trace w')"

text \<open>The values sent on the result queue, in order.\<close>

fun sends :: "event list \<Rightarrow> cid list" where
  "sends [] = []"
| "sends (EvSend c # es) = c # sends es"
| "sends (e # es) = sends es"

text \<open>The calls that mutate the pin set: \<open>PinWithMode\<close> and \<open>Flush\<close>.\<close>

fun mutation :: "event \<Rightarrow> bool" where
  "mutation (EvPinWithMode c m) = True"
| "mutation EvFlush = True"
| "mutation e = False"

definition mutated :: "event list \<Rightarrow> bool" where
  "mutated evs = list_ex mutation evs"

text \<open>
  \<open>under_lock held evs\<close>: replaying \<open>evs\<close> from a state where the pin lock is held or not
  (\<open>held\<close>), every mutation of the pin set happens while the lock is held.
\<close>

fun under_lock :: "bool \<Rightarrow> event list \<Rightarrow> bool" where
  "under_lock held [] = True"
| "under_lock held (EvPinLock # es) = under_lock True es"
| "under_lock held (EvUnlock # es) = under_lock False es"
| "under_lock held (e # es) = (if mutation e then held \<and> under_lock held es else under_lock held es)"

text \<open>The events of the loop of \<^verbatim>\<open>addAllAndPin\<close>: none of them touches the pin manager.\<close>

fun quiet :: "event \<Rightarrow> bool" where
  "quiet EvNextFile = True"
| "quiet (EvParseInputs fl) = True"
| "quiet (EvBatchAdd c) = True"
| "quiet (EvSend c) = True"
| "quiet e = False"

text \<open>Predicates of the proofs: the events of staging, and states with the same pins.\<close>

definition batch_only :: "event list \<Rightarrow> bool" where
  "batch_only evs = (\<forall>e\<in>set evs. \<exists>c. e = EvBatchAdd c)"

definition same_pins :: "world \<Rightarrow> world \<Rightarrow> bool" where
  "same_pins w w' = (pinset w' = pinset w \<and> flushed w' = flushed w \<and> pinlock w' = pinlock w)"

text \<open>
  The roots of the input: for each input unit in turn, as long as the units can be read
  and parse to at least one node, the CID of the first node of the unit's parse
  (\<^verbatim>\<open>nds[0].Cid()\<close>).
\<close>

fun unit_roots :: "env \<Rightarrow> request \<Rightarrow> 64 word \<Rightarrow> files \<Rightarrow> cid list" where
  "unit_roots E rq mhType [] = []"
| "unit_roots E rq mhType ((nf, se) # f) =
     (case nf of
        Inl err \<Rightarrow> []
      | Inr fl \<Rightarrow>
          (case ParseInputs E (input_enc rq) (format rq) fl mhType of
             Inl err \<Rightarrow> []
           | Inr nds \<Rightarrow> if length nds = 0 then [] else Cid (hd nds) # unit_roots E rq mhType f))"

definition parsed_roots :: "env \<Rightarrow> request \<Rightarrow> files \<Rightarrow> cid list" where
  "parsed_roots E rq f =
     (case GetNode E of
        Some err \<Rightarrow> []
      | None \<Rightarrow> (case hashType E rq of Inl err \<Rightarrow> [] | Inr mhType \<Rightarrow> unit_roots E rq mhType f))"

text \<open>
  What the proofs keep of the events \<open>evs\<close> of the loop when it leaves with \<open>ex\<close>: they are
  quiet, the CIDs sent are roots of the input in order, all of them when the loop ends at
  \<^verbatim>\<open>io.EOF\<close>, and a parsed unit without nodes ends the loop with the error.
\<close>

definition loop_events :: "env \<Rightarrow> request \<Rightarrow> 64 word \<Rightarrow> files \<Rightarrow> loop_exit \<Rightarrow> event list \<Rightarrow> bool" where
  "loop_events E rq t f ex evs =
     ((\<forall>e\<in>set evs. quiet e) \<and> prefix (sends evs) (unit_roots E rq t f) \<and>
      (ex = Break \<longrightarrow> sends evs = unit_roots E rq t f \<and> length (sends evs) = length f) \<and>
      (\<forall>fl. EvParseInputs fl \<in> set evs \<and> ParseInputs E (input_enc rq) (format rq) fl t = Inr []
         \<longrightarrow> ex = Return (Err (Errorf ''no node returned from ParseInputs''))))"

text \<open>
  What \<^verbatim>\<open>addAllAndPin\<close> does after its loop, as events: nothing when the loop returned,
  the commit when it ended at \<^verbatim>\<open>io.EOF\<close>, followed by the locked pinning of \<open>cids\<close> when
  the commit succeeded and \<^verbatim>\<open>dopin\<close> is set.
\<close>

definition pin_events :: "cid list \<Rightarrow> event list" where
  "pin_events cids = EvPinLock # map (\<lambda>c. EvPinWithMode c Recursive) cids @ [EvFlush, EvUnlock]"

definition after_loop :: "env \<Rightarrow> request \<Rightarrow> loop_exit \<Rightarrow> cid list \<Rightarrow> event list" where
  "after_loop E rq ex cids =
     (case ex of
        Return r \<Rightarrow> []
      | Break \<Rightarrow> EvCommit # (if CommitErr E = None \<and> pin rq then pin_events cids else []))"

definition pinned_run :: "env \<Rightarrow> request \<Rightarrow> loop_exit \<Rightarrow> bool" where
  "pinned_run E rq ex = (ex = Break \<and> CommitErr E = None \<and> pin rq)"

section \<open>Example inputs\<close>

text \<open>
  A small environment to run the model on: the parser turns every byte of a file into a
  node, an empty file into no node at all, and rejects a file that starts with the byte
  255; staging fails for the node with payload 13.
\<close>

definition ex_parse :: "string \<Rightarrow> string \<Rightarrow> input_file \<Rightarrow> 64 word \<Rightarrow> error + node list" where
  "ex_parse ienc fmt fl mhType =
     (if fl = [] then Inr []
      else if hd fl = 255 then Inl (External ''parse error'')
      else Inr (map (\<lambda>b. Node (''cid'' @ show_nat (unat b)) [b]) fl))"

definition ex_response :: response where
  "ex_response = \<lparr>StatusCode = 200, ContentLength = 3, Body = [1, 2, 3]\<rparr>"

definition ex_env :: env where
  "ex_env =
     \<lparr>GetNode = None,
      Names = [''sha2-256'' \<mapsto> 18],
      ParseInputs = ex_parse,
      BatchAddErr = (\<lambda>nd. if RawData nd = [13] then Some (External ''add failed'') else None),
      CommitErr = None,
      FlushErr = None,
      EmitErr = None,
      IsURL = (\<lambda>u. take 7 u = ''http://''),
      RepoConfig = Inr True,
      NewRequest = (\<lambda>u. None),
      HttpDo = (\<lambda>u. if u = ''http://a/missing'' then Inr (ex_response\<lparr>StatusCode := 404\<rparr>)
                      else Inr ex_response),
      balanced_Layout = (\<lambda>u b. Inr (Node ''balanced'' b)),
      trickle_Layout = (\<lambda>u b. Inr (Node ''trickle'' b)),
      intSize = 64\<rparr>"

definition ex_world :: world where
  "ex_world =
     \<lparr>outChan = [], received = 0, closed = False, staged = [], blocks = [],
      pinset = Map.empty, flushed = Map.empty, pinlock = False, trace = []\<rparr>"

definition ex_request :: request where
  "ex_request = \<lparr>input_enc = ''json'', format = ''cbor'', hash = '''', pin = False\<rparr>"

definition ex_sel :: sel_env where
  "ex_sel = \<lparr>taken = 0, cancelled = False, coin = True, wake = Received\<rparr>"

definition ex_stalled :: files where
  "ex_stalled =
     [(Inr [1], ex_sel), (Inr [2], ex_sel), (Inr [3], ex_sel), (Inr [4], ex_sel),
      (Inr [5], ex_sel), (Inr [6], ex_sel), (Inr [7], ex_sel), (Inr [8], ex_sel),
      (Inr [9], \<lparr>taken = 0, cancelled = True, coin = True, wake = Never\<rparr>)]"

definition ex_files :: files where
  "ex_files = [(Inr [1, 2], ex_sel), (Inr [3], ex_sel)]"

definition ex_full_world :: world where
  "ex_full_world =
     ex_world\<lparr>outChan := [''cid1'', ''cid2'', ''cid3'', ''cid4'', ''cid5'', ''cid6'', ''cid7'', ''cid8'']\<rparr>"

definition ex_cancel :: sel_env where
  "ex_cancel = \<lparr>taken = 0, cancelled = False, coin = True, wake = Cancelled\<rparr>"

definition ex_url_request :: url_request where
  "ex_url_request = \<lparr>url_arg = ''http://a/file'', trickle_opt = False, pin_opt = True\<rparr>"

definition ex_big_response :: response where
  "ex_big_response = ex_response\<lparr>ContentLength := 2147483648\<rparr>"

definition ex_env32 :: env where
  "ex_env32 = ex_env\<lparr>HttpDo := (\<lambda>u. Inr ex_big_response), intSize := 32\<rparr>"

definition ex_flush_fails :: env where
  "ex_flush_fails = ex_env\<lparr>FlushErr := Some (External ''flush failed'')\<rparr>"

text \<open>
  Base58 as the library computes it, for running the model: the leading zero bytes
  become as many \<open>1\<close>s, the remaining bytes are read as a number in base 256 and written
  in base 58 with the digits of the alphabet below; decoding goes the other way and
  rejects the empty string and characters outside the alphabet.
\<close>

definition b58_alphabet :: string where
  "b58_alphabet = ''123456789ABCDEFGHJKLMNPQRSTUVWXYZabcdefghijkmnopqrstuvwxyz''"

function to_base :: "nat \<Rightarrow> nat \<Rightarrow> nat list" where
  "to_base b n = (if b < 2 \<or> n = 0 then [] else to_base b (n div b) @ [n mod b])"
  by pat_completeness auto
termination
  by (relation "measure snd") auto

declare to_base.simps [simp del]

definition from_base :: "nat \<Rightarrow> nat list \<Rightarrow> nat" where
  "from_base b ds = foldl (\<lambda>a d. a * b + d) 0 ds"

fun index_of :: "'a list \<Rightarrow> 'a \<Rightarrow> nat option" where
  "index_of [] x = None"
| "index_of (y # ys) x = (if x = y then Some 0 else map_option Suc (index_of ys x))"

definition base58_Encode :: "bytes \<Rightarrow> string" where
  "base58_Encode bs =
     (let z = length (takeWhile (\<lambda>b. b = 0) bs)
      in replicate z (CHR ''1'') @
         map (\<lambda>d. b58_alphabet ! d) (to_base 58 (from_base 256 (map unat bs))))"

definition base58_Decode :: "string \<Rightarrow> error + bytes" where
  "base58_Decode s =
     (if s = [] then Inl (External ''zero length string'')
      else
        (case those (map (index_of b58_alphabet) s) of
           None \<Rightarrow> Inl (External ''invalid base58 digit'')
         | Some ds \<Rightarrow>
             (let z = length (takeWhile (\<lambda>d. d = 0) ds)
              in Inr (replicate z 0 @ map of_nat (to_base 256 (from_base 58 ds))))))"

text \<open>
  An example of a check that bytes are a multihash: a byte for the hash function, a byte
  for the length of the digest, and a digest of that length.
\<close>

definition ex_Cast :: "bytes \<Rightarrow> error + bytes" where
  "ex_Cast b =
     (case b of
        code # len # digest \<Rightarrow>
          if unat len = length digest then Inr b else Inl (External ''inconsistent length'')
      | _ \<Rightarrow> Inl (External ''multihash too short''))"

definition ex_libs :: peer_libs where
  "ex_libs = \<lparr>b58_Encode = base58_Encode, b58_Decode = base58_Decode, mh_Cast = ex_Cast\<rparr>"

definition ex_id :: ID where
  "ex_id = [0, 2, 65, 66]"

section \<open>Facts about the model\<close>


subsection \<open>The loop of addAllAndPin\<close>

lemmas world_ops = log_def PinLock_def Unlock_def PinWithMode_def Flush_def Batch_Add_def
  Batch_Commit_def send_def consume_def

lemma sends_append: "sends (xs @ ys) = sends xs @ sends ys"
  by (induction xs rule: sends.induct) auto

lemma batch_only_sends: "batch_only evs \<Longrightarrow> sends evs = []"
  by (induction evs rule: sends.induct) (auto simp: batch_only_def)

lemma batch_only_quiet: "batch_only evs \<Longrightarrow> e \<in> set evs \<Longrightarrow> quiet e"
  by (auto simp: batch_only_def)

lemma batch_only_parse: "batch_only evs \<Longrightarrow> EvParseInputs fl \<notin> set evs"
  by (auto simp: batch_only_def)

lemma addNodes_trace:
  "addNodes a nds w = (r, w') \<Longrightarrow> \<exists>evs. trace w' = trace w @ evs \<and> batch_only evs"
proof (induction nds arbitrary: w)
  case Nil
  then show ?case by (simp add: batch_only_def)
next
  case (Cons nd nds)
  show ?case
  proof (cases "a nd")
    case None
    let ?w1 = "log (EvBatchAdd (Cid nd)) (w\<lparr>staged := staged w @ [nd]\<rparr>)"
    from Cons.prems None have "addNodes a nds ?w1 = (r, w')"
      by (simp add: Batch_Add_def)
    from Cons.IH [OF this] obtain evs where
      "trace w' = trace ?w1 @ evs" "batch_only evs" by blast
    then have "trace w' = trace w @ (EvBatchAdd (Cid nd) # evs)
        \<and> batch_only (EvBatchAdd (Cid nd) # evs)"
      by (simp add: log_def batch_only_def)
    then show ?thesis by blast
  next
    case (Some err)
    with Cons.prems have "w' = log (EvBatchAdd (Cid nd)) w"
      by (simp add: Batch_Add_def)
    then have "trace w' = trace w @ [EvBatchAdd (Cid nd)] \<and> batch_only [EvBatchAdd (Cid nd)]"
      by (simp add: log_def batch_only_def)
    then show ?thesis by blast
  qed
qed

lemma addNodes_frame:
  "addNodes a nds w = (r, w') \<Longrightarrow>
     same_pins w w' \<and> outChan w' = outChan w \<and> received w' = received w \<and> closed w' = closed w"
proof (induction nds arbitrary: w)
  case Nil
  then show ?case by (simp add: same_pins_def)
next
  case (Cons nd nds)
  show ?case
  proof (cases "a nd")
    case None
    let ?w1 = "log (EvBatchAdd (Cid nd)) (w\<lparr>staged := staged w @ [nd]\<rparr>)"
    from Cons.prems None have "addNodes a nds ?w1 = (r, w')"
      by (simp add: Batch_Add_def)
    from Cons.IH [OF this] show ?thesis
      by (simp add: log_def same_pins_def)
  next
    case (Some err)
    with Cons.prems have "w' = log (EvBatchAdd (Cid nd)) w"
      by (simp add: Batch_Add_def)
    then show ?thesis by (simp add: log_def same_pins_def)
  qed
qed

lemma select_send_cases:
  "select_send se c w = (r, w') \<Longrightarrow>
     (r = Sent \<and> trace w' = trace w @ [EvSend c] \<and> outChan w' = outChan w @ [c])
   \<or> (r \<noteq> Sent \<and> trace w' = trace w \<and> outChan w' = outChan w)"
  by (auto simp: select_send_def Let_def world_ops split: if_splits wake.splits)

lemma select_send_frame:
  "select_send se c w = (r, w') \<Longrightarrow> same_pins w w' \<and> closed w' = closed w"
  by (auto simp: select_send_def Let_def world_ops same_pins_def split: if_splits wake.splits)


lemma same_pins_refl: "same_pins w w"
  by (simp add: same_pins_def)

lemma same_pins_trans: "same_pins w w1 \<Longrightarrow> same_pins w1 w2 \<Longrightarrow> same_pins w w2"
  by (simp add: same_pins_def)

lemma same_pins_log: "same_pins w (log e w)"
  by (simp add: same_pins_def log_def)

lemma addAll_frame:
  "addAll E rq t f cids w = (ex, cids', w') \<Longrightarrow> same_pins w w' \<and> closed w' = closed w"
proof (induction f arbitrary: cids w)
  case Nil
  then show ?case by (auto simp: same_pins_def log_def)
next
  case (Cons u f)
  obtain nf se where u: "u = (nf, se)" by (cases u)
  show ?case
  proof (cases nf)
    case (Inl err)
    with Cons.prems u show ?thesis by (auto simp: same_pins_def log_def)
  next
    case (Inr fl)
    let ?w1 = "log (EvParseInputs fl) (log EvNextFile w)"
    have w1: "same_pins w ?w1 \<and> closed ?w1 = closed w"
      by (simp add: same_pins_def log_def)
    show ?thesis
    proof (cases "ParseInputs E (input_enc rq) (format rq) fl t")
      case (Inl err)
      with Cons.prems u Inr have "w' = ?w1" by (simp add: Let_def)
      with w1 show ?thesis by simp
    next
      case nds: (Inr nds)
      show ?thesis
      proof (cases "length nds = 0")
        case True
        with Cons.prems u Inr nds have "w' = ?w1" by (simp add: Let_def)
        with w1 show ?thesis by simp
      next
        case False
        obtain ar w2 where an: "addNodes (BatchAddErr E) nds ?w1 = (ar, w2)"
          by (cases "addNodes (BatchAddErr E) nds ?w1")
        from addNodes_frame [OF an] w1 have w2: "same_pins w w2 \<and> closed w2 = closed w"
          by (auto intro: same_pins_trans)
        show ?thesis
        proof (cases ar)
          case (Some err)
          with Cons.prems u Inr nds False an have "w' = w2" by (simp add: Let_def)
          with w2 show ?thesis by simp
        next
          case None
          obtain sr w3 where ss: "select_send se (Cid (hd nds)) w2 = (sr, w3)"
            by (cases "select_send se (Cid (hd nds)) w2")
          from select_send_frame [OF ss] w2 have w3: "same_pins w w3 \<and> closed w3 = closed w"
            by (auto intro: same_pins_trans)
          show ?thesis
          proof (cases sr)
            case Sent
            with Cons.prems u Inr nds False an None ss
            have "addAll E rq t f (Set_Add (Cid (hd nds)) cids) w3 = (ex, cids', w')"
              by (simp add: Let_def)
            from Cons.IH [OF this] w3 show ?thesis by (auto intro: same_pins_trans)
          next
            case Done
            with Cons.prems u Inr nds False an None ss have "w' = w3" by (simp add: Let_def)
            with w3 show ?thesis by simp
          next
            case Blocked
            with Cons.prems u Inr nds False an None ss have "w' = w3" by (simp add: Let_def)
            with w3 show ?thesis by simp
          qed
        qed
      qed
    qed
  qed
qed


lemma addAll_cases [consumes 1, case_names EOF NextErr ParseErr NoNodes AddErr Sent Done Blocked]:
  assumes run: "addAll E rq t f cids w = (ex, cids', w')"
  obtains
    (EOF) "f = []" "ex = Break" "cids' = cids" "w' = log EvNextFile w"
  | (NextErr) err se f' where "f = (Inl err, se) # f'" "ex = Return (Err err)" "cids' = cids"
      "w' = log EvNextFile w"
  | (ParseErr) fl se f' err where "f = (Inr fl, se) # f'"
      "ParseInputs E (input_enc rq) (format rq) fl t = Inl err"
      "ex = Return (Err err)" "cids' = cids" "w' = log (EvParseInputs fl) (log EvNextFile w)"
  | (NoNodes) fl se f' where "f = (Inr fl, se) # f'"
      "ParseInputs E (input_enc rq) (format rq) fl t = Inr []"
      "ex = Return (Err (Errorf ''no node returned from ParseInputs''))" "cids' = cids"
      "w' = log (EvParseInputs fl) (log EvNextFile w)"
  | (AddErr) fl se f' nds err where "f = (Inr fl, se) # f'"
      "ParseInputs E (input_enc rq) (format rq) fl t = Inr nds" "nds \<noteq> []"
      "addNodes (BatchAddErr E) nds (log (EvParseInputs fl) (log EvNextFile w)) = (Some err, w')"
      "ex = Return (Err err)" "cids' = cids"
  | (Sent) fl se f' nds w2 w3 where "f = (Inr fl, se) # f'"
      "ParseInputs E (input_enc rq) (format rq) fl t = Inr nds" "nds \<noteq> []"
      "addNodes (BatchAddErr E) nds (log (EvParseInputs fl) (log EvNextFile w)) = (None, w2)"
      "select_send se (Cid (hd nds)) w2 = (Sent, w3)"
      "addAll E rq t f' (Set_Add (Cid (hd nds)) cids) w3 = (ex, cids', w')"
  | (Done) fl se f' nds w2 where "f = (Inr fl, se) # f'"
      "ParseInputs E (input_enc rq) (format rq) fl t = Inr nds" "nds \<noteq> []"
      "addNodes (BatchAddErr E) nds (log (EvParseInputs fl) (log EvNextFile w)) = (None, w2)"
      "select_send se (Cid (hd nds)) w2 = (Done, w')"
      "ex = Return Nil" "cids' = Set_Add (Cid (hd nds)) cids"
  | (Blocked) fl se f' nds w2 where "f = (Inr fl, se) # f'"
      "ParseInputs E (input_enc rq) (format rq) fl t = Inr nds" "nds \<noteq> []"
      "addNodes (BatchAddErr E) nds (log (EvParseInputs fl) (log EvNextFile w)) = (None, w2)"
      "select_send se (Cid (hd nds)) w2 = (Blocked, w')"
      "ex = Return Hangs" "cids' = Set_Add (Cid (hd nds)) cids"
proof (cases f)
  case Nil
  with run EOF show ?thesis by simp
next
  case (Cons u f')
  obtain nf se where u: "u = (nf, se)" by (cases u)
  show ?thesis
  proof (cases nf)
    case (Inl err)
    with run Cons u NextErr show ?thesis by simp
  next
    case (Inr fl)
    let ?w1 = "log (EvParseInputs fl) (log EvNextFile w)"
    show ?thesis
    proof (cases "ParseInputs E (input_enc rq) (format rq) fl t")
      case (Inl err)
      with run Cons u Inr ParseErr show ?thesis by (simp add: Let_def)
    next
      case nds: (Inr nds)
      show ?thesis
      proof (cases "nds = []")
        case True
        with run Cons u Inr nds NoNodes show ?thesis by (simp add: Let_def)
      next
        case False
        obtain ar w2 where an: "addNodes (BatchAddErr E) nds ?w1 = (ar, w2)"
          by (cases "addNodes (BatchAddErr E) nds ?w1")
        show ?thesis
        proof (cases ar)
          case (Some err)
          with run Cons u Inr nds False an AddErr show ?thesis by (simp add: Let_def)
        next
          case None
          obtain sr w3 where ss: "select_send se (Cid (hd nds)) w2 = (sr, w3)"
            by (cases "select_send se (Cid (hd nds)) w2")
          show ?thesis
          proof (cases sr)
            case a: Sent
            with run Cons u Inr nds False an None ss
            have "addAll E rq t f' (Set_Add (Cid (hd nds)) cids) w3 = (ex, cids', w')"
              by (simp add: Let_def)
            with Cons u Inr nds False an None ss a Sent show ?thesis by simp
          next
            case a: Done
            with run Cons u Inr nds False an None ss
            have "ex = Return Nil \<and> cids' = Set_Add (Cid (hd nds)) cids \<and> w3 = w'"
              by (simp add: Let_def)
            with Cons u Inr nds False an None ss a Done show ?thesis by simp
          next
            case a: Blocked
            with run Cons u Inr nds False an None ss
            have "ex = Return Hangs \<and> cids' = Set_Add (Cid (hd nds)) cids \<and> w3 = w'"
              by (simp add: Let_def)
            with Cons u Inr nds False an None ss a Blocked show ?thesis by simp
          qed
        qed
      qed
    qed
  qed
qed


lemma addAll_trace:
  "addAll E rq t f cids w = (ex, cids', w') \<Longrightarrow>
     \<exists>evs. trace w' = trace w @ evs \<and> outChan w' = outChan w @ sends evs \<and>
           loop_events E rq t f ex evs"
proof (induction f arbitrary: cids w)
  case Nil
  then have "trace w' = trace w @ [EvNextFile] \<and> outChan w' = outChan w @ sends [EvNextFile]
      \<and> loop_events E rq t [] ex [EvNextFile]"
    by (auto simp: log_def loop_events_def)
  then show ?case by blast
next
  case (Cons u f)
  from Cons.prems show ?case
  proof (cases rule: addAll_cases)
    case EOF
    then show ?thesis by simp
  next
    case (NextErr err se f')
    then have "trace w' = trace w @ [EvNextFile] \<and> outChan w' = outChan w @ sends [EvNextFile]
        \<and> loop_events E rq t (u # f) ex [EvNextFile]"
      by (auto simp: log_def loop_events_def)
    then show ?thesis by blast
  next
    case (ParseErr fl se f' err)
    then have "trace w' = trace w @ [EvNextFile, EvParseInputs fl]
        \<and> outChan w' = outChan w @ sends [EvNextFile, EvParseInputs fl]
        \<and> loop_events E rq t (u # f) ex [EvNextFile, EvParseInputs fl]"
      by (auto simp: log_def loop_events_def)
    then show ?thesis by blast
  next
    case (NoNodes fl se f')
    then have "trace w' = trace w @ [EvNextFile, EvParseInputs fl]
        \<and> outChan w' = outChan w @ sends [EvNextFile, EvParseInputs fl]
        \<and> loop_events E rq t (u # f) ex [EvNextFile, EvParseInputs fl]"
      by (auto simp: log_def loop_events_def)
    then show ?thesis by blast
  next
    case (AddErr fl se f' nds err)
    let ?w1 = "log (EvParseInputs fl) (log EvNextFile w)"
    from addNodes_trace [OF AddErr(4)] obtain evs where
      evs: "trace w' = trace ?w1 @ evs" "batch_only evs" by blast
    from addNodes_frame [OF AddErr(4)] have oc: "outChan w' = outChan w"
      by (simp add: log_def)
    let ?evs = "[EvNextFile, EvParseInputs fl] @ evs"
    from evs oc AddErr have "trace w' = trace w @ ?evs \<and> outChan w' = outChan w @ sends ?evs
        \<and> loop_events E rq t (u # f) ex ?evs"
      by (auto simp: log_def loop_events_def sends_append batch_only_sends batch_only_quiet
          batch_only_parse)
    then show ?thesis by blast
  next
    case (Sent fl se f' nds w2 w3)
    let ?w1 = "log (EvParseInputs fl) (log EvNextFile w)"
    let ?c = "Cid (hd nds)"
    from addNodes_trace [OF Sent(4)] obtain evs where
      evs: "trace w2 = trace ?w1 @ evs" "batch_only evs" by blast
    from addNodes_frame [OF Sent(4)] have oc: "outChan w2 = outChan w"
      by (simp add: log_def)
    from select_send_cases [OF Sent(5)] have w3: "trace w3 = trace w2 @ [EvSend ?c]"
      "outChan w3 = outChan w2 @ [?c]" by auto
    from Sent(1) have f': "f' = f" by simp
    from Cons.IH [OF Sent(6) [unfolded f']] obtain evs' where
      evs': "trace w' = trace w3 @ evs'" "outChan w' = outChan w3 @ sends evs'"
        "loop_events E rq t f ex evs'" by blast
    let ?evs = "[EvNextFile, EvParseInputs fl] @ evs @ [EvSend ?c] @ evs'"
    have 1: "trace w' = trace w @ ?evs"
      using evs evs' w3 by (simp add: log_def)
    have s: "sends ?evs = ?c # sends evs'"
      using evs(2) by (simp add: sends_append batch_only_sends)
    have 2: "outChan w' = outChan w @ sends ?evs"
      using s evs' w3 oc by simp
    have ur: "unit_roots E rq t (u # f) = ?c # unit_roots E rq t f"
      using Sent(1-3) by simp
    have 3: "loop_events E rq t (u # f) ex ?evs"
      unfolding loop_events_def
    proof (intro conjI allI impI ballI)
      fix e assume "e \<in> set ?evs"
      then show "quiet e"
        using evs(2) evs'(3) by (auto simp: loop_events_def batch_only_quiet)
    next
      show "prefix (sends ?evs) (unit_roots E rq t (u # f))"
        using s ur evs'(3) by (simp add: loop_events_def)
    next
      assume "ex = Break"
      then show "sends ?evs = unit_roots E rq t (u # f)"
        using s ur evs'(3) by (simp add: loop_events_def)
    next
      assume "ex = Break"
      with evs'(3) have "length (sends evs') = length f"
        unfolding loop_events_def by blast
      with s show "length (sends ?evs) = length (u # f)"
        by simp
    next
      fix fl'
      assume a: "EvParseInputs fl' \<in> set ?evs \<and>
          ParseInputs E (input_enc rq) (format rq) fl' t = Inr []"
      then have "fl' \<noteq> fl" using Sent(2,3) by auto
      with a have "EvParseInputs fl' \<in> set evs'"
        using evs(2) by (auto simp: batch_only_def)
      with a evs'(3) show "ex = Return (Err (Errorf ''no node returned from ParseInputs''))"
        unfolding loop_events_def by blast
    qed
    from 1 2 3 show ?thesis by blast
  next
    case (Done fl se f' nds w2)
    let ?w1 = "log (EvParseInputs fl) (log EvNextFile w)"
    from addNodes_trace [OF Done(4)] obtain evs where
      evs: "trace w2 = trace ?w1 @ evs" "batch_only evs" by blast
    from addNodes_frame [OF Done(4)] have oc: "outChan w2 = outChan w"
      by (simp add: log_def)
    from select_send_cases [OF Done(5)] have w3: "trace w' = trace w2" "outChan w' = outChan w2"
      by auto
    let ?evs = "[EvNextFile, EvParseInputs fl] @ evs"
    from evs oc w3 Done have "trace w' = trace w @ ?evs \<and> outChan w' = outChan w @ sends ?evs
        \<and> loop_events E rq t (u # f) ex ?evs"
      by (auto simp: log_def loop_events_def sends_append batch_only_sends batch_only_quiet
          batch_only_parse)
    then show ?thesis by blast
  next
    case (Blocked fl se f' nds w2)
    let ?w1 = "log (EvParseInputs fl) (log EvNextFile w)"
    from addNodes_trace [OF Blocked(4)] obtain evs where
      evs: "trace w2 = trace ?w1 @ evs" "batch_only evs" by blast
    from addNodes_frame [OF Blocked(4)] have oc: "outChan w2 = outChan w"
      by (simp add: log_def)
    from select_send_cases [OF Blocked(5)] have w3: "trace w' = trace w2" "outChan w' = outChan w2"
      by auto
    let ?evs = "[EvNextFile, EvParseInputs fl] @ evs"
    from evs oc w3 Blocked have "trace w' = trace w @ ?evs \<and> outChan w' = outChan w @ sends ?evs
        \<and> loop_events E rq t (u # f) ex ?evs"
      by (auto simp: log_def loop_events_def sends_append batch_only_sends batch_only_quiet
          batch_only_parse)
    then show ?thesis by blast
  qed
qed

lemma addAll_cids:
  "addAll E rq t f cids w = (Break, cids', w') \<Longrightarrow> set cids' = set cids \<union> set (unit_roots E rq t f)"
proof (induction f arbitrary: cids w)
  case Nil
  then show ?case by simp
next
  case (Cons u f)
  from Cons.prems show ?case
  proof (cases rule: addAll_cases)
    case (Sent fl se f' nds w2 w3)
    from Sent(1) have f': "f' = f" by simp
    from Cons.IH [OF Sent(6) [unfolded f']]
    have "set cids' = set (Set_Add (Cid (hd nds)) cids) \<union> set (unit_roots E rq t f)" .
    moreover have "unit_roots E rq t (u # f) = Cid (hd nds) # unit_roots E rq t f"
      using Sent(1-3) by simp
    ultimately show ?thesis by (auto simp: Set_Add_def)
  qed simp_all
qed

subsection \<open>After the loop\<close>

lemma pinAll_trace:
  "trace (pinAll cids w) = trace w @ map (\<lambda>c. EvPinWithMode c Recursive) cids"
  unfolding pinAll_def by (induction cids arbitrary: w) (simp_all add: PinWithMode_def log_def)

lemma pinAll_pinset:
  "pinset (pinAll cids w) c = (if c \<in> set cids then Some Recursive else pinset w c)"
  unfolding pinAll_def by (induction cids arbitrary: w) (simp_all add: PinWithMode_def log_def)

lemma pinAll_frame:
  "pinlock (pinAll cids w) = pinlock w \<and> flushed (pinAll cids w) = flushed w \<and>
   outChan (pinAll cids w) = outChan w"
  unfolding pinAll_def by (induction cids arbitrary: w) (simp_all add: PinWithMode_def log_def)

lemma commitAndPin_trace:
  "commitAndPin E rq cids w = (r, w') \<Longrightarrow>
     trace w' = trace w @ EvCommit # (if CommitErr E = None \<and> pin rq then pin_events cids else [])"
  by (auto simp: commitAndPin_def Batch_Commit_def Flush_def Let_def log_def PinLock_def Unlock_def
      pinAll_trace pin_events_def split: option.splits if_splits)

lemma commitAndPin_state:
  "commitAndPin E rq cids w = (r, w') \<Longrightarrow>
     outChan w' = outChan w \<and>
     pinlock w' = (if CommitErr E = None \<and> pin rq then False else pinlock w) \<and>
     pinset w' c = (if CommitErr E = None \<and> pin rq \<and> c \<in> set cids then Some Recursive
                    else pinset w c) \<and>
     flushed w' = (if CommitErr E = None \<and> pin rq \<and> FlushErr E = None then pinset w'
                   else flushed w)"
  by (auto simp: commitAndPin_def Batch_Commit_def Flush_def Let_def log_def PinLock_def Unlock_def
      pinAll_frame pinAll_pinset split: option.splits if_splits)

lemma commitAndPin_result:
  "commitAndPin E rq cids w = (r, w') \<Longrightarrow>
     r = (case CommitErr E of
            Some err \<Rightarrow> Err err
          | None \<Rightarrow> if pin rq then (case FlushErr E of Some err \<Rightarrow> Err err | None \<Rightarrow> Nil)
                     else Nil)"
  by (auto simp: commitAndPin_def Batch_Commit_def Flush_def Let_def split: option.splits if_splits)


lemma addAllFrom_summary:
  assumes "addAllFrom E rq t f cids w = (r, w')"
  shows "\<exists>ex cids1 evs.
      loop_events E rq t f ex evs \<and>
      (ex = Break \<longrightarrow> set cids1 = set cids \<union> set (unit_roots E rq t f)) \<and>
      (\<forall>r0. ex = Return r0 \<longrightarrow> r = r0) \<and>
      trace w' = trace w @ evs @ after_loop E rq ex cids1 \<and>
      outChan w' = outChan w @ sends evs \<and>
      pinlock w' = (if pinned_run E rq ex then False else pinlock w) \<and>
      (\<forall>c. pinset w' c = (if pinned_run E rq ex \<and> c \<in> set cids1 then Some Recursive
                          else pinset w c)) \<and>
      flushed w' = (if pinned_run E rq ex \<and> FlushErr E = None then pinset w' else flushed w)"
proof -
  obtain ex cids1 w1 where run: "addAll E rq t f cids w = (ex, cids1, w1)"
    by (cases "addAll E rq t f cids w")
  from addAll_trace [OF run] obtain evs where
    evs: "trace w1 = trace w @ evs" "outChan w1 = outChan w @ sends evs"
      "loop_events E rq t f ex evs" by blast
  from addAll_frame [OF run] have fr: "same_pins w w1" by simp
  show ?thesis
  proof (cases ex)
    case (Return r0)
    with assms run have "r = r0" "w' = w1" by (simp_all add: addAllFrom_def)
    with evs fr Return show ?thesis
      by (intro exI [of _ ex] exI [of _ cids1] exI [of _ evs])
        (simp add: after_loop_def pinned_run_def same_pins_def)
  next
    case Break
    with assms run have cp: "commitAndPin E rq cids1 w1 = (r, w')"
      by (simp add: addAllFrom_def)
    from addAll_cids [OF run [unfolded Break]]
    have cids1: "set cids1 = set cids \<union> set (unit_roots E rq t f)" .
    have st: "outChan w' = outChan w1"
      "pinlock w' = (if CommitErr E = None \<and> pin rq then False else pinlock w1)"
      "\<And>c. pinset w' c = (if CommitErr E = None \<and> pin rq \<and> c \<in> set cids1 then Some Recursive
                    else pinset w1 c)"
      "flushed w' = (if CommitErr E = None \<and> pin rq \<and> FlushErr E = None then pinset w'
                   else flushed w1)"
      using commitAndPin_state [OF cp] by blast+
    from commitAndPin_trace [OF cp] evs(1) have
      tr: "trace w' = trace w @ evs @ after_loop E rq ex cids1"
      by (simp add: after_loop_def Break)
    have pr: "pinned_run E rq ex = (CommitErr E = None \<and> pin rq)"
      by (simp add: pinned_run_def Break)
    from fr have fr': "pinset w1 = pinset w" "flushed w1 = flushed w" "pinlock w1 = pinlock w"
      by (simp_all add: same_pins_def)
    have "loop_events E rq t f ex evs" by (rule evs(3))
    moreover have "ex = Break \<longrightarrow> set cids1 = set cids \<union> set (unit_roots E rq t f)"
      using cids1 by simp
    moreover have "\<forall>r0. ex = Return r0 \<longrightarrow> r = r0" by (simp add: Break)
    moreover note tr
    moreover have "outChan w' = outChan w @ sends evs" using st(1) evs(2) by simp
    moreover have "pinlock w' = (if pinned_run E rq ex then False else pinlock w)"
      using st(2) fr' pr by simp
    moreover have "\<forall>c. pinset w' c = (if pinned_run E rq ex \<and> c \<in> set cids1 then Some Recursive
                          else pinset w c)"
      using st(3) fr' pr by simp
    moreover have "flushed w' = (if pinned_run E rq ex \<and> FlushErr E = None then pinset w'
        else flushed w)"
      using st(4) fr' pr by simp
    ultimately show ?thesis by blast
  qed
qed


subsection \<open>Runs of dag put\<close>

lemma new_events_append: "trace w' = trace w @ evs \<Longrightarrow> new_events w w' = evs"
  by (simp add: new_events_def)

lemma DagPut_Run_summary:
  assumes "DagPut_Run E rq f w = (r, w')"
  shows "(w' = w \<and> parsed_roots E rq f = [] \<and> (\<exists>err. r = Err err)) \<or>
     (\<exists>t ex cids1 evs.
        GetNode E = None \<and> hashType E rq = Inr t \<and>
        loop_events E rq t f ex evs \<and>
        (ex = Break \<longrightarrow> set cids1 = set (unit_roots E rq t f)) \<and>
        (\<forall>r0. ex = Return r0 \<and> EmitErr E = None \<longrightarrow> r = r0) \<and>
        new_events w w' = evs @ after_loop E rq ex cids1 \<and>
        outChan w' = sends evs \<and>
        pinlock w' = (if pinned_run E rq ex then False else pinlock w) \<and>
        (\<forall>c. pinset w' c = (if pinned_run E rq ex \<and> c \<in> set cids1 then Some Recursive
                            else pinset w c)) \<and>
        flushed w' = (if pinned_run E rq ex \<and> FlushErr E = None then pinset w' else flushed w))"
proof (cases "GetNode E")
  case (Some err)
  with assms show ?thesis by (auto simp: DagPut_Run_def parsed_roots_def)
next
  case None
  show ?thesis
  proof (cases "hashType E rq")
    case (Inl err)
    with assms None show ?thesis by (auto simp: DagPut_Run_def parsed_roots_def)
  next
    case (Inr t)
    with assms None have p: "produce E rq t f w = (r, w')" by (simp add: DagPut_Run_def)
    let ?w0 = "NewBatch (makeChan w)"
    obtain r1 w1 where a: "addAllFrom E rq t f [] ?w0 = (r1, w1)"
      by (cases "addAllFrom E rq t f [] ?w0")
    from p a have w': "w' = w1 \<or> w' = w1\<lparr>closed := True\<rparr>"
      by (auto simp: produce_def addAllAndPin_def split: result.splits option.splits)
    from p a have r: "EmitErr E = None \<longrightarrow> r = r1"
      by (auto simp: produce_def addAllAndPin_def split: result.splits option.splits)
    from addAllFrom_summary [OF a] obtain ex cids1 evs where
      s: "loop_events E rq t f ex evs"
        "ex = Break \<longrightarrow> set cids1 = set [] \<union> set (unit_roots E rq t f)"
        "\<forall>r0. ex = Return r0 \<longrightarrow> r1 = r0"
        "trace w1 = trace ?w0 @ evs @ after_loop E rq ex cids1"
        "outChan w1 = outChan ?w0 @ sends evs"
        "pinlock w1 = (if pinned_run E rq ex then False else pinlock ?w0)"
        "\<forall>c. pinset w1 c = (if pinned_run E rq ex \<and> c \<in> set cids1 then Some Recursive
                          else pinset ?w0 c)"
        "flushed w1 = (if pinned_run E rq ex \<and> FlushErr E = None then pinset w1
                       else flushed ?w0)"
      by blast
    have eq: "trace w' = trace w1" "outChan w' = outChan w1" "pinlock w' = pinlock w1"
      "pinset w' = pinset w1" "flushed w' = flushed w1"
      using w' by auto
    have "new_events w w' = evs @ after_loop E rq ex cids1"
      using s(4) eq(1) by (simp add: new_events_def makeChan_def NewBatch_def)
    moreover have "outChan w' = sends evs" using s(5) eq(2) by (simp add: makeChan_def NewBatch_def)
    moreover have "pinlock w' = (if pinned_run E rq ex then False else pinlock w)"
      using s(6) eq(3) by (simp add: makeChan_def NewBatch_def)
    moreover have "\<forall>c. pinset w' c = (if pinned_run E rq ex \<and> c \<in> set cids1 then Some Recursive
                            else pinset w c)"
      using s(7) eq(4) by (simp add: makeChan_def NewBatch_def)
    moreover have "flushed w' = (if pinned_run E rq ex \<and> FlushErr E = None then pinset w'
        else flushed w)"
      using s(8) eq(4,5) by (simp add: makeChan_def NewBatch_def)
    moreover have "ex = Break \<longrightarrow> set cids1 = set (unit_roots E rq t f)" using s(2) by simp
    moreover have "\<forall>r0. ex = Return r0 \<and> EmitErr E = None \<longrightarrow> r = r0" using s(3) r by simp
    moreover note s(1) None Inr
    ultimately show ?thesis by blast
  qed
qed

lemma loop_events_quiet: "loop_events E rq t f ex evs \<Longrightarrow> e \<in> set evs \<Longrightarrow> quiet e"
  unfolding loop_events_def by blast

lemma loop_events_prefix:
  "loop_events E rq t f ex evs \<Longrightarrow> prefix (sends evs) (unit_roots E rq t f)"
  unfolding loop_events_def by blast

lemma loop_events_Break:
  "loop_events E rq t f Break evs \<Longrightarrow>
     sends evs = unit_roots E rq t f \<and> length (unit_roots E rq t f) = length f"
  unfolding loop_events_def by metis

lemma loop_events_no_nodes:
  "loop_events E rq t f ex evs \<Longrightarrow> EvParseInputs fl \<in> set evs \<Longrightarrow>
     ParseInputs E (input_enc rq) (format rq) fl t = Inr [] \<Longrightarrow>
     ex = Return (Err (Errorf ''no node returned from ParseInputs''))"
  unfolding loop_events_def by blast

lemma sends_quiet_free: "\<forall>e\<in>set evs. \<not> quiet e \<Longrightarrow> sends evs = []"
  by (induction evs rule: sends.induct) auto

lemma pin_events_not_quiet: "e \<in> set (pin_events cids) \<Longrightarrow> \<not> quiet e"
  by (auto simp: pin_events_def)

lemma after_loop_not_quiet: "e \<in> set (after_loop E rq ex cids) \<Longrightarrow> \<not> quiet e"
  by (auto simp: after_loop_def pin_events_def split: loop_exit.splits if_splits)

lemma sends_after_loop: "sends (after_loop E rq ex cids) = []"
  by (rule sends_quiet_free) (blast dest: after_loop_not_quiet)

lemma commit_after_loop: "EvCommit \<in> set (after_loop E rq ex cids) \<longleftrightarrow> ex = Break"
  by (auto simp: after_loop_def split: loop_exit.splits)

lemma mutated_append: "mutated (xs @ ys) \<longleftrightarrow> mutated xs \<or> mutated ys"
  by (simp add: mutated_def)

lemma quiet_not_mutated: "\<forall>e\<in>set evs. quiet e \<Longrightarrow> \<not> mutated evs"
proof (induction evs)
  case Nil
  then show ?case by (simp add: mutated_def)
next
  case (Cons e evs)
  then show ?case by (cases e) (simp_all add: mutated_def)
qed

lemma mutated_pin_events: "mutated (pin_events cids)"
  by (simp add: pin_events_def mutated_def list_ex_iff)

lemma mutated_after_loop: "mutated (after_loop E rq ex cids) \<longleftrightarrow> pinned_run E rq ex"
proof (cases ex)
  case Break
  show ?thesis
  proof (cases "CommitErr E = None \<and> pin rq")
    case True
    with Break show ?thesis
      using mutated_pin_events [of cids]
      by (simp add: after_loop_def pinned_run_def mutated_def)
  next
    case False
    with Break show ?thesis
      by (auto simp: after_loop_def pinned_run_def mutated_def)
  qed
next
  case (Return r)
  then show ?thesis by (simp add: after_loop_def pinned_run_def mutated_def)
qed

lemma under_lock_quiet: "\<forall>e\<in>set evs. quiet e \<Longrightarrow> under_lock h (evs @ rest) = under_lock h rest"
proof (induction evs)
  case Nil
  then show ?case by simp
next
  case (Cons e evs)
  then show ?case by (cases e) simp_all
qed

lemma under_lock_pins:
  "under_lock True (map (\<lambda>c. EvPinWithMode c Recursive) cids @ rest) = under_lock True rest"
  by (induction cids) simp_all

lemma under_lock_pin_events: "under_lock h (pin_events cids)"
  by (simp add: pin_events_def under_lock_pins)

lemma under_lock_after_loop: "under_lock h (after_loop E rq ex cids)"
  by (simp add: after_loop_def under_lock_pin_events split: loop_exit.splits)

subsection \<open>The select at a full queue\<close>

lemma select_send_full_cancelled:
  assumes "chanCap \<le> buffered (consume (taken se) w)" and "cancelled se \<or> wake se = Cancelled"
  shows "select_send se c w = (Done, consume (taken se) w)"
  using assms by (auto simp: select_send_def Let_def)

lemma buffered_consume_frame:
  "outChan w' = outChan w \<Longrightarrow> received w' = received w \<Longrightarrow>
     buffered (consume k w') = buffered (consume k w)"
  by (simp add: buffered_def consume_def)

subsection \<open>Runs of urlstore add\<close>

lemma go_int_64: "go_int 64 x = sint x"
proof -
  have "- (2 ^ 63) \<le> sint x" using sint_ge [of x] by simp
  moreover have "sint x < 2 ^ 63" using sint_lt [of x] by simp
  ultimately show ?thesis
    by (simp add: go_int_def signed_take_bit_int_eq_self)
qed

lemmas url_ops = UrlAdd_Run_def Let_def EmitOnce_def release_def Flush_def PinWithMode_def
  PinLock_def Unlock_def log_def StatusOK_def

lemma UrlAdd_Run_unlocked: "\<not> pinlock w \<Longrightarrow> \<not> pinlock (snd (UrlAdd_Run E rq w))"
  by (auto simp: url_ops split: option.splits sum.splits)

lemma UrlAdd_Run_under_lock: "under_lock False (new_events w (snd (UrlAdd_Run E rq w)))"
  by (auto simp: url_ops new_events_def split: option.splits sum.splits)

subsection \<open>The pin lock in runs of dag put\<close>

lemma DagPut_Run_unlocked: "\<not> pinlock w \<Longrightarrow> \<not> pinlock (snd (DagPut_Run E rq f w))"
proof -
  assume u: "\<not> pinlock w"
  have run: "DagPut_Run E rq f w = (fst (DagPut_Run E rq f w), snd (DagPut_Run E rq f w))"
    by simp
  from DagPut_Run_summary [OF run] consider
    (rejected) "snd (DagPut_Run E rq f w) = w"
  | (ran) ex where
      "pinlock (snd (DagPut_Run E rq f w)) = (if pinned_run E rq ex then False else pinlock w)"
    by blast
  then show ?thesis
  proof cases
    case rejected
    with u show ?thesis by simp
  next
    case ran
    with u show ?thesis by (simp split: if_splits)
  qed
qed

lemma DagPut_Run_under_lock: "under_lock False (new_events w (snd (DagPut_Run E rq f w)))"
proof -
  let ?w' = "snd (DagPut_Run E rq f w)"
  have run: "DagPut_Run E rq f w = (fst (DagPut_Run E rq f w), ?w')"
    by simp
  from DagPut_Run_summary [OF run] consider
    (rejected) "?w' = w"
  | (ran) t ex cids1 evs where "loop_events E rq t f ex evs"
      "new_events w ?w' = evs @ after_loop E rq ex cids1"
    by blast
  then show ?thesis
  proof cases
    case rejected
    then show ?thesis by (simp add: new_events_def)
  next
    case ran
    have "\<forall>e\<in>set evs. quiet e" using ran(1) by (blast dest: loop_events_quiet)
    then show ?thesis
      using ran(2) by (simp add: under_lock_quiet under_lock_after_loop)
  qed
qed

subsection \<open>Base58\<close>

lemma ex_enc: "IDB58Encode ex_libs ex_id = ''1kvu''"
  by (simp add: IDB58Encode_def ex_libs_def ex_id_def base58_Encode_def from_base_def b58_alphabet_def
      to_base.simps)

lemma ex_dec: "b58_Decode ex_libs ''1kvu'' = Inr ex_id"
  by (simp add: ex_libs_def ex_id_def base58_Decode_def from_base_def b58_alphabet_def
      to_base.simps)

lemma to_base_0: "to_base b 0 = []"
  by (subst to_base.simps) simp

lemma to_base_step: "2 \<le> b \<Longrightarrow> n \<noteq> 0 \<Longrightarrow> to_base b n = to_base b (n div b) @ [n mod b]"
  by (subst to_base.simps) simp

lemma from_base_snoc: "from_base b (ds @ [d]) = from_base b ds * b + d"
  by (simp add: from_base_def)

lemma from_base_Nil: "from_base b [] = 0"
  by (simp add: from_base_def)

lemma from_base_to_base: "2 \<le> b \<Longrightarrow> from_base b (to_base b n) = n"
proof (induction b n rule: to_base.induct)
  case (1 b n)
  show ?case
  proof (cases "n = 0")
    case True
    then show ?thesis by (simp add: to_base_0 from_base_Nil)
  next
    case False
    with 1 have "from_base b (to_base b (n div b)) = n div b" by simp
    moreover have "to_base b n = to_base b (n div b) @ [n mod b]"
      using 1(2) False by (rule to_base_step)
    ultimately show ?thesis by (simp add: from_base_snoc)
  qed
qed

lemma to_base_empty: "2 \<le> b \<Longrightarrow> to_base b n = [] \<longleftrightarrow> n = 0"
  by (cases "n = 0") (simp_all add: to_base_0 to_base_step)

lemma to_base_no_leading_zero: "2 \<le> b \<Longrightarrow> to_base b n = [] \<or> hd (to_base b n) \<noteq> 0"
proof (induction b n rule: to_base.induct)
  case (1 b n)
  show ?case
  proof (cases "n = 0")
    case True
    then show ?thesis by (simp add: to_base_0)
  next
    case False
    show ?thesis
    proof (cases "n div b = 0")
      case True
      then have "n < b" using 1(2) by (simp add: div_eq_0_iff)
      with False True 1(2) show ?thesis by (simp add: to_base_step to_base_0)
    next
      case nz: False
      have ne: "to_base b (n div b) \<noteq> []" using nz 1(2) by (simp add: to_base_empty)
      with 1 False have "hd (to_base b (n div b)) \<noteq> 0" by simp
      moreover have "to_base b n = to_base b (n div b) @ [n mod b]"
        using 1(2) False by (rule to_base_step)
      ultimately show ?thesis using ne by simp
    qed
  qed
qed

lemma to_base_digits: "2 \<le> b \<Longrightarrow> d \<in> set (to_base b n) \<Longrightarrow> d < b"
proof (induction b n rule: to_base.induct)
  case (1 b n)
  show ?case
  proof (cases "n = 0")
    case True
    with 1(3) show ?thesis by (simp add: to_base_0)
  next
    case False
    with 1(2) have "to_base b n = to_base b (n div b) @ [n mod b]"
      by (intro to_base_step)
    with 1 False show ?thesis by auto
  qed
qed

lemma to_base_from_base:
  "2 \<le> b \<Longrightarrow> \<forall>d\<in>set ds. d < b \<Longrightarrow> ds = [] \<or> hd ds \<noteq> 0 \<Longrightarrow> to_base b (from_base b ds) = ds"
proof (induction ds rule: rev_induct)
  case Nil
  then show ?case by (simp add: from_base_Nil to_base_0)
next
  case (snoc d ds)
  have d: "d < b" using snoc.prems(2) by simp
  show ?case
  proof (cases "ds = []")
    case True
    with snoc.prems(3) have "d \<noteq> 0" by simp
    then have "to_base b d = to_base b (d div b) @ [d mod b]"
      using snoc.prems(1) by (intro to_base_step)
    with d have "to_base b d = [d]" by (simp add: to_base_0)
    with True show ?thesis by (simp add: from_base_def)
  next
    case False
    with snoc.prems(3) have "hd ds \<noteq> 0" by simp
    with snoc have ih: "to_base b (from_base b ds) = ds" by simp
    with False snoc.prems(1) have nz: "from_base b ds \<noteq> 0"
      using to_base_empty [of b "from_base b ds"] by auto
    then have "from_base b ds * b + d \<noteq> 0" using snoc.prems(1) by simp
    with snoc.prems(1) have "to_base b (from_base b ds * b + d)
        = to_base b ((from_base b ds * b + d) div b) @ [(from_base b ds * b + d) mod b]"
      by (intro to_base_step)
    with ih d show ?thesis by (simp add: from_base_snoc)
  qed
qed

lemma from_base_zeros: "from_base b (replicate z 0 @ ds) = from_base b ds"
  by (induction z) (simp_all add: from_base_def)

lemma takeWhile_zero: "takeWhile (\<lambda>x. x = 0) xs = replicate (length (takeWhile (\<lambda>x. x = 0) xs)) 0"
  by (induction xs) simp_all

lemma leading_zeros_split:
  "xs = replicate (length (takeWhile (\<lambda>x. x = 0) xs)) 0 @ dropWhile (\<lambda>x. x = 0) xs"
  using takeWhile_zero [of xs] takeWhile_dropWhile_id [of "\<lambda>x. x = 0" xs] by metis

lemma dropWhile_zero_hd:
  "dropWhile (\<lambda>x. x = 0) xs = [] \<or> hd (dropWhile (\<lambda>x. x = 0) xs) \<noteq> 0"
  using hd_dropWhile [of "\<lambda>x. x = 0" xs] by auto

lemma leading_zeros_count:
  "ds = [] \<or> hd ds \<noteq> 0 \<Longrightarrow> length (takeWhile (\<lambda>x. x = 0) (replicate z (0::nat) @ ds)) = z"
  by (induction z) (auto simp: takeWhile_eq_Nil_iff neq_Nil_conv)

lemma index_of_nth: "distinct xs \<Longrightarrow> d < length xs \<Longrightarrow> index_of xs (xs ! d) = Some d"
proof (induction xs arbitrary: d)
  case Nil
  then show ?case by simp
next
  case (Cons x xs)
  then show ?case by (cases d) auto
qed

lemma those_index_of:
  "distinct xs \<Longrightarrow> \<forall>d\<in>set ds. d < length xs \<Longrightarrow>
     those (map (index_of xs) (map (\<lambda>d. xs ! d) ds)) = Some ds"
  by (induction ds) (simp_all add: index_of_nth)

lemma b58_alphabet_distinct: "distinct b58_alphabet"
  by (simp add: b58_alphabet_def)

lemma b58_alphabet_length: "length b58_alphabet = 58"
  by (simp add: b58_alphabet_def)

lemma b58_alphabet_0: "b58_alphabet ! 0 = CHR ''1''"
  by (simp add: b58_alphabet_def)

lemma base58_roundtrip:
  assumes "bs \<noteq> []"
  shows "base58_Decode (base58_Encode bs) = Inr bs"
proof -
  define z where "z = length (takeWhile (\<lambda>b. b = 0) bs)"
  define rest where "rest = dropWhile (\<lambda>b. b = 0) bs"
  define n where "n = from_base 256 (map unat bs)"
  define ds where "ds = to_base 58 n"
  have bs: "bs = replicate z 0 @ rest"
    unfolding z_def rest_def by (rule leading_zeros_split)
  have rest: "rest = [] \<or> hd rest \<noteq> 0"
    unfolding rest_def by (rule dropWhile_zero_hd)
  have n: "n = from_base 256 (map unat rest)"
    unfolding n_def by (subst bs) (simp add: from_base_zeros)
  have lt: "\<forall>d\<in>set (map unat rest). d < 256"
  proof
    fix d assume "d \<in> set (map unat rest)"
    then obtain w :: "8 word" where "d = unat w" by auto
    moreover have "unat w < 2 ^ LENGTH(8)" by (rule unsigned_less)
    ultimately show "d < 256" by simp
  qed
  have hd: "map unat rest = [] \<or> hd (map unat rest) \<noteq> 0"
    using rest by (cases rest) (auto simp: unat_0_iff)
  have bytes_back: "to_base 256 n = map unat rest"
    unfolding n using lt hd by (simp add: to_base_from_base)
  have ds_lt: "\<forall>d\<in>set ds. d < length b58_alphabet"
    unfolding ds_def b58_alphabet_length using to_base_digits [of 58 _ n] by simp
  have ds_hd: "ds = [] \<or> hd ds \<noteq> 0"
    unfolding ds_def using to_base_no_leading_zero [of 58 n] by simp
  have enc: "base58_Encode bs = map (\<lambda>d. b58_alphabet ! d) (replicate z 0 @ ds)"
    by (simp add: base58_Encode_def z_def ds_def n_def b58_alphabet_0 Let_def)
  have all_lt: "\<forall>d\<in>set (replicate z 0 @ ds). d < length b58_alphabet"
    using ds_lt by (auto simp: b58_alphabet_length)
  have th: "those (map (index_of b58_alphabet) (base58_Encode bs)) = Some (replicate z 0 @ ds)"
    unfolding enc using b58_alphabet_distinct all_lt by (rule those_index_of)
  have ne: "base58_Encode bs \<noteq> []"
  proof (cases "z = 0")
    case True
    with bs assms rest have "hd rest \<noteq> 0" "rest \<noteq> []" by auto
    then have "map unat rest \<noteq> []" by simp
    with bytes_back have "n \<noteq> 0" using to_base_empty [of 256 n] by auto
    then have "ds \<noteq> []" unfolding ds_def using to_base_empty [of 58 n] by simp
    then show ?thesis by (simp add: enc)
  next
    case False
    then show ?thesis by (simp add: enc)
  qed
  have cnt: "length (takeWhile (\<lambda>d. d = 0) (replicate z 0 @ ds)) = z"
    using ds_hd by (rule leading_zeros_count)
  have val: "from_base 58 (replicate z 0 @ ds) = n"
    by (simp add: from_base_zeros ds_def from_base_to_base)
  have "base58_Decode (base58_Encode bs) = Inr (replicate z 0 @ map of_nat (to_base 256 n))"
    using ne th cnt val by (simp add: base58_Decode_def Let_def)
  also have "map of_nat (to_base 256 n) = rest"
    by (simp add: bytes_back comp_def map_idI)
  finally show ?thesis using bs by simp
qed

lemma ex_Cast_same: "ex_Cast b = Inr m \<Longrightarrow> m = b"
  by (auto simp: ex_Cast_def split: list.splits if_splits)

text \<open>
  With the base58 codec above, the assumption on the codec holds for every ID that is not
  empty, so every valid, non-empty peer ID is decoded from its encoding.
\<close>

lemma IDB58_roundtrip_base58:
  assumes "b58_Encode L = base58_Encode" and "b58_Decode L = base58_Decode"
    and "mh_Cast L pid = Inr pid" and "pid \<noteq> []"
  shows "IDB58Decode L (IDB58Encode L pid) = (pid, None)"
  using assms
  by (simp add: IDB58Decode_def IDB58Encode_def mh_FromB58String_def base58_roundtrip)

subsection \<open>Decimal rendering\<close>

text \<open>The rendering of a number determines the number.\<close>

lemma show_nat_small: "n < 10 \<Longrightarrow> show_nat n = [digit n]"
  by (subst show_nat.simps) simp

lemma show_nat_big: "\<not> n < 10 \<Longrightarrow> show_nat n = show_nat (n div 10) @ [digit (n mod 10)]"
  by (subst show_nat.simps) simp

lemma show_nat_nonempty: "show_nat n \<noteq> []"
  by (cases "n < 10") (simp_all add: show_nat_small show_nat_big)

lemma digit_inj: "a < 10 \<Longrightarrow> b < 10 \<Longrightarrow> digit a = digit b \<Longrightarrow> a = b"
proof -
  assume a: "a < 10" and b: "b < 10" and "digit a = digit b"
  then have "of_char (digit a) = (of_char (digit b) :: nat)" by simp
  with a b show ?thesis by (simp add: digit_def)
qed

lemma digit_not_minus: "d < 10 \<Longrightarrow> digit d \<noteq> CHR ''-''"
proof
  assume d: "d < 10" and "digit d = CHR ''-''"
  then have "of_char (digit d) = (of_char (CHR ''-'') :: nat)" by simp
  with d show False by (simp add: digit_def)
qed

lemma show_nat_hd: "hd (show_nat n) \<noteq> CHR ''-''"
proof (induction n rule: show_nat.induct)
  case (1 n)
  show ?case
  proof (cases "n < 10")
    case True
    then show ?thesis by (simp add: show_nat_small digit_not_minus)
  next
    case False
    with 1 show ?thesis
      by (simp add: show_nat_big show_nat_nonempty)
  qed
qed

lemma show_nat_inj: "show_nat n = show_nat m \<Longrightarrow> n = m"
proof (induction n arbitrary: m rule: show_nat.induct)
  case (1 n)
  show ?case
  proof (cases "n < 10")
    case n: True
    show ?thesis
    proof (cases "m < 10")
      case True
      with n 1(2) show ?thesis
        by (simp add: show_nat_small digit_inj)
    next
      case False
      with n 1(2) have "[digit n] = show_nat (m div 10) @ [digit (m mod 10)]"
        by (simp add: show_nat_small show_nat_big)
      then have "show_nat (m div 10) = []" by simp
      then show ?thesis by (simp add: show_nat_nonempty)
    qed
  next
    case n: False
    show ?thesis
    proof (cases "m < 10")
      case True
      with n 1(2) have "show_nat (n div 10) @ [digit (n mod 10)] = [digit m]"
        by (simp add: show_nat_small show_nat_big)
      then have "show_nat (n div 10) = []" by simp
      then show ?thesis by (simp add: show_nat_nonempty)
    next
      case False
      with n 1(2) have "show_nat (n div 10) @ [digit (n mod 10)]
          = show_nat (m div 10) @ [digit (m mod 10)]"
        by (simp add: show_nat_big)
      then have e: "show_nat (n div 10) = show_nat (m div 10)" "digit (n mod 10) = digit (m mod 10)"
        by simp_all
      from 1(1) [OF n e(1)] have "n div 10 = m div 10" .
      moreover from e(2) have "n mod 10 = m mod 10" by (simp add: digit_inj)
      ultimately show ?thesis by (metis div_mult_mod_eq)
    qed
  qed
qed

lemma show_int_inj: "show_int i = show_int j \<Longrightarrow> i = j"
proof -
  assume e: "show_int i = show_int j"
  consider "i < 0" "j < 0" | "i < 0" "\<not> j < 0" | "\<not> i < 0" "j < 0" | "\<not> i < 0" "\<not> j < 0"
    by blast
  then show ?thesis
  proof cases
    case 1
    with e have "nat (- i) = nat (- j)" by (simp add: show_int_def show_nat_inj)
    with 1 show ?thesis by simp
  next
    case 2
    with e have "CHR ''-'' # show_nat (nat (- i)) = show_nat (nat j)"
      by (simp add: show_int_def)
    then have "hd (show_nat (nat j)) = CHR ''-''" by (metis list.sel(1))
    then show ?thesis by (simp add: show_nat_hd)
  next
    case 3
    with e have "show_nat (nat i) = CHR ''-'' # show_nat (nat (- j))"
      by (simp add: show_int_def)
    then have "hd (show_nat (nat i)) = CHR ''-''" by (metis list.sel(1))
    then show ?thesis by (simp add: show_nat_hd)
  next
    case 4
    with e have "nat i = nat j" by (simp add: show_int_def show_nat_inj)
    with 4 show ?thesis by simp
  qed
qed

subsection \<open>Conversion to int\<close>

text \<open>
  The conversion keeps every value that fits the width of \<^verbatim>\<open>int\<close>; with 32 bits it wraps
  from 2 GiB on.
\<close>

lemma go_int_fits:
  "- (2 ^ (bits - 1)) \<le> sint x \<Longrightarrow> sint x < 2 ^ (bits - 1) \<Longrightarrow> go_int bits x = sint x"
  by (simp add: go_int_def signed_take_bit_int_eq_self)

lemma go_int_32_keeps_low_bits: "go_int 32 2147483648 = - 2147483648"
  by (simp add: go_int_def signed_take_bit_eq_take_bit_shift)

section \<open>dag put: one CID per input unit, in input order\<close>

text \<open>
  C1. As stated, for every invocation, the claim fails: an invocation that is cancelled
  while the producer waits at the full queue has parsed nine roots and emitted eight, and
  returns \<^verbatim>\<open>nil\<close>.
\<close>

theorem dagput_one_cid_per_root_counterexample:
  "fst (DagPut_Run ex_env ex_request ex_stalled ex_world) = Nil \<and>
   length (parsed_roots ex_env ex_request ex_stalled) = 9 \<and>
   length (sends (new_events ex_world (snd (DagPut_Run ex_env ex_request ex_stalled ex_world)))) = 8 \<and>
   sends (new_events ex_world (snd (DagPut_Run ex_env ex_request ex_stalled ex_world)))
     \<noteq> parsed_roots ex_env ex_request ex_stalled"
  by code_simp

text \<open>
  C1, amended. The CIDs sent on the result queue are always an initial segment of the
  roots of the input, in input order, where the root of a unit is the first node of its
  parse; a run that reaches the commit has sent exactly one CID for every input unit.
\<close>

theorem dagput_emits_unit_roots_in_order:
  assumes "DagPut_Run E rq f w = (r, w')"
  shows "prefix (sends (new_events w w')) (parsed_roots E rq f) \<and>
     (EvCommit \<in> set (new_events w w') \<longrightarrow>
        sends (new_events w w') = parsed_roots E rq f \<and> length (parsed_roots E rq f) = length f)"
proof -
  from DagPut_Run_summary [OF assms] consider
    (rejected) "w' = w" "parsed_roots E rq f = []"
  | (ran) t ex cids1 evs where "GetNode E = None" "hashType E rq = Inr t"
      "loop_events E rq t f ex evs" "new_events w w' = evs @ after_loop E rq ex cids1"
    by blast
  then show ?thesis
  proof cases
    case rejected
    then show ?thesis by (simp add: new_events_def)
  next
    case ran
    have pr: "parsed_roots E rq f = unit_roots E rq t f"
      using ran(1,2) by (simp add: parsed_roots_def)
    have s: "sends (new_events w w') = sends evs"
      using ran(4) by (simp add: sends_append sends_after_loop)
    have q: "\<forall>e\<in>set evs. quiet e" using ran(3) by (blast dest: loop_events_quiet)
    have c: "EvCommit \<in> set (new_events w w') \<longleftrightarrow> ex = Break"
      using ran(4) q commit_after_loop [of E rq ex cids1] by auto
    have "prefix (sends evs) (unit_roots E rq t f)"
      using ran(3) by (rule loop_events_prefix)
    moreover have "ex = Break \<longrightarrow>
        sends evs = unit_roots E rq t f \<and> length (unit_roots E rq t f) = length f"
      using ran(3) loop_events_Break by blast
    ultimately show ?thesis using pr s c by simp
  qed
qed

theorem dagput_emits_unit_roots_in_order_witness:
  "EvCommit \<in> set (new_events ex_world (snd (DagPut_Run ex_env ex_request ex_files ex_world))) \<and>
   sends (new_events ex_world (snd (DagPut_Run ex_env ex_request ex_files ex_world)))
     = parsed_roots ex_env ex_request ex_files \<and>
   parsed_roots ex_env ex_request ex_files = [''cid1'', ''cid3''] \<and>
   length (parsed_roots ex_env ex_request ex_files) = length ex_files"
proof -
  have run: "DagPut_Run ex_env ex_request ex_files ex_world =
      (fst (DagPut_Run ex_env ex_request ex_files ex_world),
       snd (DagPut_Run ex_env ex_request ex_files ex_world))"
    by simp
  have c: "EvCommit \<in> set (new_events ex_world (snd (DagPut_Run ex_env ex_request ex_files ex_world)))"
    by code_simp
  have p: "parsed_roots ex_env ex_request ex_files = [''cid1'', ''cid3'']"
    by code_simp
  from dagput_emits_unit_roots_in_order [OF run] c p show ?thesis by simp
qed

section \<open>dag put: pinning after the commit\<close>

text \<open>
  C2. As stated, the claim fails: with the pin flag set, a run that stops at a parse
  error does not touch the pin set.
\<close>

theorem dagput_pin_iff_flag_counterexample:
  "pin (ex_request\<lparr>pin := True\<rparr>) \<and>
   \<not> mutated (new_events ex_world
        (snd (DagPut_Run ex_env (ex_request\<lparr>pin := True\<rparr>) [(Inr [255], ex_sel)] ex_world)))"
  by code_simp

text \<open>
  C2, amended. The pin set is mutated if and only if the pin flag is set and the run
  reaches a successful commit. Then the run ends with the commit followed by: taking the
  pin lock, \<open>PinWithMode c Recursive\<close> for every CID sent on the result queue, the flush
  and the release of the lock; every sent CID is recursive in the pin set, and the durable
  pin set is the pin set if the flush succeeds. In every other run, in particular when the
  pin flag is not set, the pin set and the durable pin set are left as they were.
\<close>

theorem dagput_pins_after_successful_commit:
  assumes "DagPut_Run E rq f w = (r, w')"
  shows "(mutated (new_events w w') \<longleftrightarrow>
            pin rq \<and> CommitErr E = None \<and> EvCommit \<in> set (new_events w w')) \<and>
     (mutated (new_events w w') \<longrightarrow>
        (\<exists>evs cids. new_events w w' = evs @ EvCommit # pin_events cids \<and>
            \<not> mutated evs \<and> set cids = set (sends (new_events w w'))) \<and>
        (\<forall>c\<in>set (sends (new_events w w')). pinset w' c = Some Recursive) \<and>
        (FlushErr E = None \<longrightarrow> flushed w' = pinset w')) \<and>
     (\<not> mutated (new_events w w') \<longrightarrow> pinset w' = pinset w \<and> flushed w' = flushed w)"
proof -
  from DagPut_Run_summary [OF assms] consider
    (rejected) "w' = w"
  | (ran) t ex cids1 evs where
      "loop_events E rq t f ex evs"
      "ex = Break \<longrightarrow> set cids1 = set (unit_roots E rq t f)"
      "new_events w w' = evs @ after_loop E rq ex cids1"
      "\<forall>c. pinset w' c = (if pinned_run E rq ex \<and> c \<in> set cids1 then Some Recursive
                            else pinset w c)"
      "flushed w' = (if pinned_run E rq ex \<and> FlushErr E = None then pinset w' else flushed w)"
    by blast
  then show ?thesis
  proof cases
    case rejected
    then show ?thesis by (simp add: new_events_def mutated_def)
  next
    case ran
    have q: "\<forall>e\<in>set evs. quiet e" using ran(1) by (blast dest: loop_events_quiet)
    have s: "sends (new_events w w') = sends evs"
      using ran(3) by (simp add: sends_append sends_after_loop)
    have c: "EvCommit \<in> set (new_events w w') \<longleftrightarrow> ex = Break"
      using ran(3) q commit_after_loop [of E rq ex cids1] by auto
    have m: "mutated (new_events w w') \<longleftrightarrow> pinned_run E rq ex"
      using ran(3) quiet_not_mutated [OF q] by (simp add: mutated_append mutated_after_loop)
    have 1: "mutated (new_events w w') \<longleftrightarrow>
        pin rq \<and> CommitErr E = None \<and> EvCommit \<in> set (new_events w w')"
      using m c by (auto simp: pinned_run_def)
    have 3: "\<not> mutated (new_events w w') \<longrightarrow> pinset w' = pinset w \<and> flushed w' = flushed w"
      using m ran(4,5) by auto
    have 2: "mutated (new_events w w') \<longrightarrow>
        (\<exists>evs cids. new_events w w' = evs @ EvCommit # pin_events cids \<and>
            \<not> mutated evs \<and> set cids = set (sends (new_events w w'))) \<and>
        (\<forall>c\<in>set (sends (new_events w w')). pinset w' c = Some Recursive) \<and>
        (FlushErr E = None \<longrightarrow> flushed w' = pinset w')"
    proof
      assume "mutated (new_events w w')"
      with m have p: "pinned_run E rq ex" by simp
      then have b: "ex = Break" "CommitErr E = None" "pin rq" by (simp_all add: pinned_run_def)
      from ran(1) b(1) have se: "sends evs = unit_roots E rq t f"
        using loop_events_Break by blast
      with ran(2) b(1) s have cs: "set cids1 = set (sends (new_events w w'))" by simp
      have "new_events w w' = evs @ EvCommit # pin_events cids1"
        using ran(3) b by (simp add: after_loop_def)
      with cs quiet_not_mutated [OF q]
      have "\<exists>evs cids. new_events w w' = evs @ EvCommit # pin_events cids \<and>
            \<not> mutated evs \<and> set cids = set (sends (new_events w w'))"
        by blast
      moreover have "\<forall>c\<in>set (sends (new_events w w')). pinset w' c = Some Recursive"
        using ran(4) p cs by simp
      moreover have "FlushErr E = None \<longrightarrow> flushed w' = pinset w'"
        using ran(5) p by simp
      ultimately show "(\<exists>evs cids. new_events w w' = evs @ EvCommit # pin_events cids \<and>
            \<not> mutated evs \<and> set cids = set (sends (new_events w w'))) \<and>
        (\<forall>c\<in>set (sends (new_events w w')). pinset w' c = Some Recursive) \<and>
        (FlushErr E = None \<longrightarrow> flushed w' = pinset w')"
        by blast
    qed
    from 1 2 3 show ?thesis by blast
  qed
qed

theorem dagput_pins_after_successful_commit_witness:
  "mutated (new_events ex_world
      (snd (DagPut_Run ex_env (ex_request\<lparr>pin := True\<rparr>) ex_files ex_world))) \<and>
   sends (new_events ex_world
      (snd (DagPut_Run ex_env (ex_request\<lparr>pin := True\<rparr>) ex_files ex_world))) = [''cid1'', ''cid3''] \<and>
   pinset (snd (DagPut_Run ex_env (ex_request\<lparr>pin := True\<rparr>) ex_files ex_world)) ''cid1''
     = Some Recursive \<and>
   pinset (snd (DagPut_Run ex_env (ex_request\<lparr>pin := True\<rparr>) ex_files ex_world)) ''cid3''
     = Some Recursive \<and>
   flushed (snd (DagPut_Run ex_env (ex_request\<lparr>pin := True\<rparr>) ex_files ex_world))
     = pinset (snd (DagPut_Run ex_env (ex_request\<lparr>pin := True\<rparr>) ex_files ex_world))"
proof -
  let ?rq = "ex_request\<lparr>pin := True\<rparr>"
  let ?R = "DagPut_Run ex_env ?rq ex_files ex_world"
  have run: "?R = (fst ?R, snd ?R)" by simp
  have m: "mutated (new_events ex_world (snd ?R))" by code_simp
  have s: "sends (new_events ex_world (snd ?R)) = [''cid1'', ''cid3'']" by code_simp
  have fl: "FlushErr ex_env = None" by (simp add: ex_env_def)
  from dagput_pins_after_successful_commit [OF run] m fl
  have "(\<forall>c\<in>set (sends (new_events ex_world (snd ?R))). pinset (snd ?R) c = Some Recursive) \<and>
      flushed (snd ?R) = pinset (snd ?R)"
    by blast
  with m s show ?thesis by simp
qed

section \<open>dag put: the hash function name\<close>

text \<open>
  C3. A \<^verbatim>\<open>dag put\<close> whose requested hash function name is not a key of \<^verbatim>\<open>mh.Names\<close> fails
  before any I/O: \<^verbatim>\<open>Run\<close> returns an error (the one about the name, unless getting the node
  from the environment failed first) and the state is the one it started from, so nothing
  was read, parsed, staged, persisted or sent on the result queue.
\<close>

theorem unknown_hash_rejected_before_io:
  assumes "hash rq \<noteq> ''''" and "Names E (hash rq) = None"
  shows "DagPut_Run E rq f w =
     (Err (case GetNode E of
             Some err \<Rightarrow> err
           | None \<Rightarrow> Errorf (hash rq @ '' in not a valid multihash name'')), w)"
  using assms by (simp add: DagPut_Run_def hashType_def split: option.splits)

theorem unknown_hash_rejected_before_io_witness:
  "hash (ex_request\<lparr>hash := ''sha9''\<rparr>) \<noteq> '''' \<and>
   Names ex_env (hash (ex_request\<lparr>hash := ''sha9''\<rparr>)) = None \<and>
   DagPut_Run ex_env (ex_request\<lparr>hash := ''sha9''\<rparr>) [(Inr [1], ex_sel)] ex_world =
     (Err (Errorf ''sha9 in not a valid multihash name''), ex_world)"
proof -
  have h: "hash (ex_request\<lparr>hash := ''sha9''\<rparr>) \<noteq> ''''" by simp
  have n: "Names ex_env (hash (ex_request\<lparr>hash := ''sha9''\<rparr>)) = None"
    by (simp add: ex_env_def)
  have g: "GetNode ex_env = None" by (simp add: ex_env_def)
  from unknown_hash_rejected_before_io [OF h n, of "[(Inr [1], ex_sel)]" ex_world] h n g
  show ?thesis by simp
qed

section \<open>dag put: a unit without nodes\<close>

text \<open>
  C4. A unit that the build parses and whose parse yields no node makes \<^verbatim>\<open>addAllAndPin\<close>
  return the error \<^verbatim>\<open>no node returned from ParseInputs\<close>: the build neither returns
  \<^verbatim>\<open>nil\<close> nor reaches the commit.
\<close>

theorem zero_nodes_abort_the_build:
  assumes "addAllAndPin E rq t f w = (r, w')"
    and "EvParseInputs fl \<in> set (new_events w w')"
    and "ParseInputs E (input_enc rq) (format rq) fl t = Inr []"
  shows "r = Err (Errorf ''no node returned from ParseInputs'') \<and>
     EvCommit \<notin> set (new_events w w')"
proof -
  from assms(1) have a: "addAllFrom E rq t f [] (NewBatch w) = (r, w')"
    by (simp add: addAllAndPin_def)
  from addAllFrom_summary [OF a] obtain ex cids1 evs where
    s: "loop_events E rq t f ex evs" "\<forall>r0. ex = Return r0 \<longrightarrow> r = r0"
       "trace w' = trace (NewBatch w) @ evs @ after_loop E rq ex cids1"
    by blast
  have n: "new_events w w' = evs @ after_loop E rq ex cids1"
    using s(3) by (simp add: new_events_def NewBatch_def)
  have "EvParseInputs fl \<notin> set (after_loop E rq ex cids1)"
    using after_loop_not_quiet [of "EvParseInputs fl" E rq ex cids1] by auto
  with assms(2) n have "EvParseInputs fl \<in> set evs" by simp
  from loop_events_no_nodes [OF s(1) this assms(3)]
  have ex: "ex = Return (Err (Errorf ''no node returned from ParseInputs''))" .
  with s(2) have "r = Err (Errorf ''no node returned from ParseInputs'')" by simp
  moreover have "EvCommit \<notin> set evs"
    using loop_events_quiet [OF s(1), of EvCommit] by auto
  then have "EvCommit \<notin> set (new_events w w')"
    using n ex by (simp add: after_loop_def)
  ultimately show ?thesis by simp
qed

theorem zero_nodes_abort_the_build_witness:
  "EvParseInputs [] \<in> set (new_events ex_world
      (snd (addAllAndPin ex_env ex_request MaxUint64 [(Inr [1], ex_sel), (Inr [], ex_sel)] ex_world))) \<and>
   ParseInputs ex_env (input_enc ex_request) (format ex_request) [] MaxUint64 = Inr [] \<and>
   fst (addAllAndPin ex_env ex_request MaxUint64 [(Inr [1], ex_sel), (Inr [], ex_sel)] ex_world)
     = Err (Errorf ''no node returned from ParseInputs'') \<and>
   EvCommit \<notin> set (new_events ex_world
      (snd (addAllAndPin ex_env ex_request MaxUint64 [(Inr [1], ex_sel), (Inr [], ex_sel)] ex_world)))"
proof -
  let ?R = "addAllAndPin ex_env ex_request MaxUint64 [(Inr [1], ex_sel), (Inr [], ex_sel)] ex_world"
  have run: "?R = (fst ?R, snd ?R)" by simp
  have p: "EvParseInputs [] \<in> set (new_events ex_world (snd ?R))" by code_simp
  have z: "ParseInputs ex_env (input_enc ex_request) (format ex_request) [] MaxUint64 = Inr []"
    by (simp add: ex_env_def ex_parse_def)
  from zero_nodes_abort_the_build [OF run p z] p z show ?thesis by simp
qed

section \<open>urlstore add: the HTTP status\<close>

text \<open>
  C5. When the HTTP GET of \<^verbatim>\<open>urlstore add\<close> is answered with a status code other than
  200, \<^verbatim>\<open>Run\<close> returns the error \<^verbatim>\<open>expected code 200, got: <code>\<close> and the only thing that
  has happened is the GET: no layout was built (so nothing was chunked), the pin lock was
  not taken and nothing was pinned or flushed.
\<close>

theorem urladd_rejects_other_status:
  assumes "GetNode E = None" and "IsURL E (url_arg rq)" and "RepoConfig E = Inr True"
    and "NewRequest E (url_arg rq) = None" and "HttpDo E (url_arg rq) = Inr hres"
    and "StatusCode hres \<noteq> 200"
  shows "UrlAdd_Run E rq w =
     (Inl (Errorf (''expected code 200, got: '' @ show_int (StatusCode hres))),
      log (EvHttpGet (url_arg rq)) w)"
  using assms by (simp add: UrlAdd_Run_def Let_def StatusOK_def)

theorem urladd_rejects_other_status_witness:
  "UrlAdd_Run ex_env (ex_url_request\<lparr>url_arg := ''http://a/missing''\<rparr>) ex_world =
     (Inl (Errorf ''expected code 200, got: 404''), ex_world\<lparr>trace := [EvHttpGet ''http://a/missing'']\<rparr>)"
proof -
  let ?rq = "ex_url_request\<lparr>url_arg := ''http://a/missing''\<rparr>"
  have 1: "GetNode ex_env = None" by (simp add: ex_env_def)
  have 2: "IsURL ex_env (url_arg ?rq)" by (simp add: ex_env_def)
  have 3: "RepoConfig ex_env = Inr True" by (simp add: ex_env_def)
  have 4: "NewRequest ex_env (url_arg ?rq) = None" by (simp add: ex_env_def)
  have 5: "HttpDo ex_env (url_arg ?rq) = Inr (ex_response\<lparr>StatusCode := 404\<rparr>)"
    by (simp add: ex_env_def)
  have 6: "StatusCode (ex_response\<lparr>StatusCode := 404\<rparr>) \<noteq> 200" by simp
  have s: "show_int 404 = ''404''" by code_simp
  from urladd_rejects_other_status [OF 1 2 3 4 5 6, of ex_world] s
  show ?thesis by (simp add: log_def ex_world_def)
qed

section \<open>urlstore add: the reported size\<close>

text \<open>
  C6. As stated, for every successful run, the claim fails where Go's \<^verbatim>\<open>int\<close> has 32 bits:
  a successful \<^verbatim>\<open>urlstore add\<close> of a response that declares 2147483648 bytes returns the
  \<^verbatim>\<open>Size\<close> -2147483648.
\<close>

theorem urladd_size_counterexample:
  "fst (UrlAdd_Run ex_env32 ex_url_request ex_world)
     = Inr \<lparr>Key = ''balanced'', Size = - 2147483648\<rparr> \<and>
   HttpDo ex_env32 (url_arg ex_url_request) = Inr ex_big_response \<and>
   sint (ContentLength ex_big_response) = 2147483648"
  by (simp add: url_ops ex_env32_def ex_env_def ex_url_request_def ex_big_response_def
      ex_response_def ex_world_def go_int_32_keeps_low_bits)

text \<open>
  C6, amended. The \<^verbatim>\<open>Size\<close> of the record a successful \<^verbatim>\<open>urlstore add\<close> returns is the
  \<^verbatim>\<open>ContentLength\<close> of the HTTP response converted to Go's \<^verbatim>\<open>int\<close>: it equals the declared
  content length whenever that fits the width of \<^verbatim>\<open>int\<close>, so always where \<^verbatim>\<open>int\<close> has 64
  bits.
\<close>

theorem urladd_size_is_converted_content_length:
  assumes "UrlAdd_Run E rq w = (Inr bs, w')" and "HttpDo E (url_arg rq) = Inr hres"
  shows "Size bs = go_int (intSize E) (ContentLength hres) \<and>
     (- (2 ^ (intSize E - 1)) \<le> sint (ContentLength hres) \<and>
      sint (ContentLength hres) < 2 ^ (intSize E - 1) \<longrightarrow>
        Size bs = sint (ContentLength hres)) \<and>
     (intSize E = 64 \<longrightarrow> Size bs = sint (ContentLength hres))"
proof -
  from assms have s: "Size bs = go_int (intSize E) (ContentLength hres)"
    by (auto simp: url_ops split: option.splits if_splits sum.splits)
  then show ?thesis
    using go_int_fits [of "intSize E" "ContentLength hres"] go_int_64 [of "ContentLength hres"]
    by auto
qed

theorem urladd_size_is_converted_content_length_witness:
  "UrlAdd_Run ex_env ex_url_request ex_world =
     (Inr \<lparr>Key = ''balanced'', Size = 3\<rparr>, snd (UrlAdd_Run ex_env ex_url_request ex_world)) \<and>
   intSize ex_env = 64 \<and>
   sint (ContentLength ex_response) = 3 \<and>
   go_int (intSize ex_env) (ContentLength ex_response) = 3"
proof -
  have r: "fst (UrlAdd_Run ex_env ex_url_request ex_world) = Inr \<lparr>Key = ''balanced'', Size = 3\<rparr>"
    by code_simp
  then have run: "UrlAdd_Run ex_env ex_url_request ex_world =
      (Inr \<lparr>Key = ''balanced'', Size = 3\<rparr>, snd (UrlAdd_Run ex_env ex_url_request ex_world))"
    by (metis prod.collapse)
  have d: "HttpDo ex_env (url_arg ex_url_request) = Inr ex_response"
    by (simp add: ex_env_def ex_url_request_def)
  have i: "intSize ex_env = 64" by (simp add: ex_env_def)
  have c: "sint (ContentLength ex_response) = 3" by (simp add: ex_response_def)
  from urladd_size_is_converted_content_length [OF run d] run i c show ?thesis by simp
qed

section \<open>The pin lock is released\<close>

text \<open>
  C7. Started with the pin lock free, \<^verbatim>\<open>dag put\<close> and \<^verbatim>\<open>urlstore add\<close> leave it free however
  they end: with \<^verbatim>\<open>nil\<close>, with any error (a failed flush included) or, for \<^verbatim>\<open>dag put\<close>,
  stuck at the result queue, which is before the lock is taken.
\<close>

theorem pin_lock_released_on_every_exit:
  assumes "\<not> pinlock w"
  shows "\<not> pinlock (snd (DagPut_Run E rq f w)) \<and> \<not> pinlock (snd (UrlAdd_Run E' rq' w))"
  using assms DagPut_Run_unlocked UrlAdd_Run_unlocked by blast

theorem pin_lock_released_on_every_exit_witness:
  "\<not> pinlock ex_world \<and>
   DagPut_Run ex_flush_fails (ex_request\<lparr>pin := True\<rparr>) ex_files ex_world =
     (Err (External ''flush failed''),
      snd (DagPut_Run ex_flush_fails (ex_request\<lparr>pin := True\<rparr>) ex_files ex_world)) \<and>
   EvPinLock \<in> set (trace (snd (DagPut_Run ex_flush_fails (ex_request\<lparr>pin := True\<rparr>) ex_files ex_world))) \<and>
   \<not> pinlock (snd (DagPut_Run ex_flush_fails (ex_request\<lparr>pin := True\<rparr>) ex_files ex_world)) \<and>
   UrlAdd_Run ex_flush_fails ex_url_request ex_world =
     (Inl (External ''flush failed''), snd (UrlAdd_Run ex_flush_fails ex_url_request ex_world)) \<and>
   EvPinLock \<in> set (trace (snd (UrlAdd_Run ex_flush_fails ex_url_request ex_world))) \<and>
   \<not> pinlock (snd (UrlAdd_Run ex_flush_fails ex_url_request ex_world))"
proof -
  have u: "\<not> pinlock ex_world" by (simp add: ex_world_def)
  have d: "fst (DagPut_Run ex_flush_fails (ex_request\<lparr>pin := True\<rparr>) ex_files ex_world)
      = Err (External ''flush failed'')"
    by code_simp
  have dl: "EvPinLock \<in> set (trace (snd (DagPut_Run ex_flush_fails (ex_request\<lparr>pin := True\<rparr>) ex_files ex_world)))"
    by code_simp
  have a: "fst (UrlAdd_Run ex_flush_fails ex_url_request ex_world) = Inl (External ''flush failed'')"
    by code_simp
  have al: "EvPinLock \<in> set (trace (snd (UrlAdd_Run ex_flush_fails ex_url_request ex_world)))"
    by code_simp
  from pin_lock_released_on_every_exit [OF u, of ex_flush_fails "ex_request\<lparr>pin := True\<rparr>"
      ex_files ex_flush_fails ex_url_request] u d dl a al
  show ?thesis by (simp add: prod_eq_iff)
qed

section \<open>Pin mutations hold the pin lock\<close>

text \<open>
  C8. In the events of a run of \<^verbatim>\<open>dag put\<close> or \<^verbatim>\<open>urlstore add\<close>, every \<open>PinWithMode\<close> and
  every \<open>Flush\<close> comes after the run has taken the pin lock and before it releases it.
\<close>

theorem pin_mutations_hold_the_lock:
  "under_lock False (new_events w (snd (DagPut_Run E rq f w))) \<and>
   under_lock False (new_events w (snd (UrlAdd_Run E' rq' w)))"
  using DagPut_Run_under_lock UrlAdd_Run_under_lock by blast

theorem pin_mutations_hold_the_lock_witness:
  "new_events ex_world (snd (DagPut_Run ex_env (ex_request\<lparr>pin := True\<rparr>) ex_files ex_world)) =
     [EvNextFile, EvParseInputs [1, 2], EvBatchAdd ''cid1'', EvBatchAdd ''cid2'', EvSend ''cid1'',
      EvNextFile, EvParseInputs [3], EvBatchAdd ''cid3'', EvSend ''cid3'', EvNextFile, EvCommit,
      EvPinLock, EvPinWithMode ''cid1'' Recursive, EvPinWithMode ''cid3'' Recursive, EvFlush,
      EvUnlock] \<and>
   under_lock False (new_events ex_world
     (snd (DagPut_Run ex_env (ex_request\<lparr>pin := True\<rparr>) ex_files ex_world))) \<and>
   new_events ex_world (snd (UrlAdd_Run ex_env ex_url_request ex_world)) =
     [EvHttpGet ''http://a/file'', EvPinLock, EvLayout False,
      EvPinWithMode ''balanced'' Recursive, EvFlush, EvEmitOnce, EvUnlock] \<and>
   under_lock False (new_events ex_world (snd (UrlAdd_Run ex_env ex_url_request ex_world)))"
proof -
  have d: "new_events ex_world (snd (DagPut_Run ex_env (ex_request\<lparr>pin := True\<rparr>) ex_files ex_world)) =
     [EvNextFile, EvParseInputs [1, 2], EvBatchAdd ''cid1'', EvBatchAdd ''cid2'', EvSend ''cid1'',
      EvNextFile, EvParseInputs [3], EvBatchAdd ''cid3'', EvSend ''cid3'', EvNextFile, EvCommit,
      EvPinLock, EvPinWithMode ''cid1'' Recursive, EvPinWithMode ''cid3'' Recursive, EvFlush,
      EvUnlock]"
    by code_simp
  have a: "new_events ex_world (snd (UrlAdd_Run ex_env ex_url_request ex_world)) =
     [EvHttpGet ''http://a/file'', EvPinLock, EvLayout False,
      EvPinWithMode ''balanced'' Recursive, EvFlush, EvEmitOnce, EvUnlock]"
    by code_simp
  from pin_mutations_hold_the_lock [of ex_world ex_env "ex_request\<lparr>pin := True\<rparr>" ex_files
      ex_env ex_url_request] d a
  show ?thesis by simp
qed

section \<open>dag put: cancellation at the result queue\<close>

text \<open>
  C9. At any iteration of the loop of \<^verbatim>\<open>addAllAndPin\<close>, after the unit's nodes are
  staged: if the result queue is full, so that the producer has to wait at the
  \<^verbatim>\<open>select\<close>, and the context is cancelled (before the producer arrives or while it
  waits), then \<^verbatim>\<open>addAllAndPin\<close> returns \<^verbatim>\<open>nil\<close> at once. Nothing is sent for the unit (the
  queue is as before), no further file is read whatever files remain, and neither the
  commit nor any pinning takes place: the trace ends with the staging of the unit.
\<close>

theorem cancelled_while_queuing_abandons:
  assumes "ParseInputs E (input_enc rq) (format rq) fl t = Inr nds" and "nds \<noteq> []"
    and "addNodes (BatchAddErr E) nds (log (EvParseInputs fl) (log EvNextFile w)) = (None, w2)"
    and "chanCap \<le> buffered (consume (taken se) w)"
    and "cancelled se \<or> wake se = Cancelled"
  shows "addAllFrom E rq t ((Inr fl, se) # f) cids w = (Nil, consume (taken se) w2) \<and>
     outChan (consume (taken se) w2) = outChan w \<and>
     trace (consume (taken se) w2) = trace w2 \<and>
     sends (new_events w (consume (taken se) w2)) = [] \<and>
     EvCommit \<notin> set (new_events w (consume (taken se) w2)) \<and>
     \<not> mutated (new_events w (consume (taken se) w2))"
proof -
  let ?w1 = "log (EvParseInputs fl) (log EvNextFile w)"
  let ?w' = "consume (taken se) w2"
  from addNodes_frame [OF assms(3)] have fr: "outChan w2 = outChan w" "received w2 = received w"
    by (simp_all add: log_def)
  then have "buffered (consume (taken se) w2) = buffered (consume (taken se) w)"
    by (rule buffered_consume_frame)
  with assms(4) have full: "chanCap \<le> buffered (consume (taken se) w2)" by simp
  have sel: "select_send se (Cid (hd nds)) w2 = (Done, ?w')"
    using full assms(5) by (rule select_send_full_cancelled)
  have loop: "addAll E rq t ((Inr fl, se) # f) cids w
      = (Return Nil, Set_Add (Cid (hd nds)) cids, ?w')"
    using assms(1-3) sel by (simp add: Let_def)
  then have 1: "addAllFrom E rq t ((Inr fl, se) # f) cids w = (Nil, ?w')"
    by (simp add: addAllFrom_def)
  have 2: "outChan ?w' = outChan w" using fr by (simp add: consume_def)
  have 3: "trace ?w' = trace w2" by (simp add: consume_def)
  from addNodes_trace [OF assms(3)] obtain evs where
    evs: "trace w2 = trace ?w1 @ evs" "batch_only evs" by blast
  then have n: "new_events w ?w' = [EvNextFile, EvParseInputs fl] @ evs"
    using 3 by (simp add: new_events_def log_def)
  have q: "\<forall>e\<in>set (new_events w ?w'). quiet e"
    using n evs(2) by (auto simp: batch_only_def)
  have 4: "sends (new_events w ?w') = []"
    using n evs(2) by (simp add: batch_only_sends)
  have 5: "EvCommit \<notin> set (new_events w ?w')" using q by auto
  have 6: "\<not> mutated (new_events w ?w')" using q by (rule quiet_not_mutated)
  from 1 2 3 4 5 6 show ?thesis by simp
qed

theorem cancelled_while_queuing_abandons_witness:
  "chanCap \<le> buffered (consume (taken ex_cancel) ex_full_world) \<and>
   fst (addAllFrom ex_env ex_request MaxUint64 [(Inr [9], ex_cancel), (Inr [10], ex_sel)] []
          ex_full_world) = Nil \<and>
   outChan (snd (addAllFrom ex_env ex_request MaxUint64 [(Inr [9], ex_cancel), (Inr [10], ex_sel)] []
          ex_full_world)) = outChan ex_full_world \<and>
   trace (snd (addAllFrom ex_env ex_request MaxUint64 [(Inr [9], ex_cancel), (Inr [10], ex_sel)] []
          ex_full_world)) = [EvNextFile, EvParseInputs [9], EvBatchAdd ''cid9'']"
proof -
  let ?w2 = "ex_full_world\<lparr>staged := [Node ''cid9'' [9]],
      trace := [EvNextFile, EvParseInputs [9], EvBatchAdd ''cid9'']\<rparr>"
  have p: "ParseInputs ex_env (input_enc ex_request) (format ex_request) [9] MaxUint64
      = Inr [Node ''cid9'' [9]]"
    by code_simp
  have ne: "[Node ''cid9'' [9]] \<noteq> []" by simp
  have a: "addNodes (BatchAddErr ex_env) [Node ''cid9'' [9]]
      (log (EvParseInputs [9]) (log EvNextFile ex_full_world)) = (None, ?w2)"
    by (simp add: ex_env_def Batch_Add_def log_def ex_full_world_def ex_world_def)
  have b: "chanCap \<le> buffered (consume (taken ex_cancel) ex_full_world)"
    by (simp add: chanCap_def buffered_def consume_def ex_cancel_def ex_full_world_def ex_world_def)
  have c: "cancelled ex_cancel \<or> wake ex_cancel = Cancelled" by (simp add: ex_cancel_def)
  from cancelled_while_queuing_abandons [OF p ne a b c, of "[(Inr [10], ex_sel)]" "[]"] b
  show ?thesis by (simp add: consume_def ex_cancel_def ex_full_world_def ex_world_def)
qed

section \<open>Peer identities: base58 round trip\<close>

text \<open>
  C10. For a peer ID that \<^verbatim>\<open>IDFromBytes\<close> accepts as a valid multihash, \<^verbatim>\<open>IDB58Decode\<close> of
  its \<^verbatim>\<open>IDB58Encode\<close> is the ID itself with no error, given of the libraries that
  \<^verbatim>\<open>mh.Cast\<close> returns the bytes it was given when it accepts them and that the base58 codec
  decodes the encoding of the ID to the ID.
\<close>

theorem IDB58_roundtrip:
  assumes "IDFromBytes L pid = (pid, None)"
    and "\<forall>b m. mh_Cast L b = Inr m \<longrightarrow> m = b"
    and "b58_Decode L (b58_Encode L pid) = Inr pid"
  shows "IDB58Decode L (IDB58Encode L pid) = (pid, None)"
proof -
  from assms(1) obtain m where "mh_Cast L pid = Inr m"
    by (auto simp: IDFromBytes_def split: sum.splits)
  with assms(2) have "mh_Cast L pid = Inr pid" by simp
  with assms(3) show ?thesis
    by (simp add: IDB58Decode_def IDB58Encode_def mh_FromB58String_def)
qed

theorem IDB58_roundtrip_witness:
  "IDFromBytes ex_libs ex_id = (ex_id, None) \<and>
   IDB58Encode ex_libs ex_id = ''1kvu'' \<and>
   IDB58Decode ex_libs (IDB58Encode ex_libs ex_id) = (ex_id, None)"
proof -
  have v: "IDFromBytes ex_libs ex_id = (ex_id, None)"
    by (simp add: IDFromBytes_def ex_libs_def ex_id_def ex_Cast_def)
  have c: "\<forall>b m. mh_Cast ex_libs b = Inr m \<longrightarrow> m = b"
    by (simp add: ex_libs_def ex_Cast_same)
  have e: "b58_Encode ex_libs ex_id = ''1kvu''"
    using ex_enc by (simp add: IDB58Encode_def)
  have d: "b58_Decode ex_libs (b58_Encode ex_libs ex_id) = Inr ex_id"
    using e ex_dec by simp
  from IDB58_roundtrip [OF v c d] v ex_enc show ?thesis by simp
qed

end
